theory Spec2Isabelle
  imports Main "HOL-Library.Word" "HOL-Library.AList"
begin

section \<open>Python strings and paths\<close>

text \<open>
  A Python \<open>str\<close> is modelled as a \<open>string\<close>, each \<open>char\<close> standing for the code point
  of the same number (0 to 255).  On these code points the predicates below are the ones
  CPython uses: \<open>isspace\<close> is \<open>str.isspace\<close>, which is also the class \<open>\s\<close> of \<open>re\<close> and
  the set that \<open>str.strip()\<close> removes; \<open>isdigit\<close> is the class \<open>\d\<close>; \<open>lower\<close> is
  \<open>str.lower\<close>.
\<close>

definition ord :: "char \<Rightarrow> nat" where
  "ord c = of_char c"

definition isspace :: "char \<Rightarrow> bool" where
  "isspace c = (let n = ord c in
     (9 \<le> n \<and> n \<le> 13) \<or> (28 \<le> n \<and> n \<le> 32) \<or> n = 133 \<or> n = 160)"

definition isdigit :: "char \<Rightarrow> bool" where
  "isdigit c = (let n = ord c in 48 \<le> n \<and> n \<le> 57)"

definition is_upper_cp :: "nat \<Rightarrow> bool" where
  "is_upper_cp n = ((65 \<le> n \<and> n \<le> 90) \<or> (192 \<le> n \<and> n \<le> 214) \<or> (216 \<le> n \<and> n \<le> 222))"

definition lower_cp :: "nat \<Rightarrow> nat" where
  "lower_cp n = (if is_upper_cp n then n + 32 else n)"

definition lower_char :: "char \<Rightarrow> char" where
  "lower_char c = char_of (lower_cp (ord c))"

definition lower :: "string \<Rightarrow> string" where
  "lower s = map lower_char s"

text \<open>\<open>s.strip()\<close>: whitespace removed at both ends.\<close>

definition strip :: "string \<Rightarrow> string" where
  "strip s = rev (dropWhile isspace (rev (dropWhile isspace s)))"

text \<open>\<open>s.rsplit(sep, 1)[1]\<close> for a string that contains \<open>sep\<close>: what follows the last
  separator.  Both callers test \<open>sep in s\<close> first.\<close>

definition rsplit_last :: "char \<Rightarrow> string \<Rightarrow> string" where
  "rsplit_last sep s = rev (takeWhile (\<lambda>c. c \<noteq> sep) (rev s))"

text \<open>\<open>os.path.basename\<close> and \<open>os.path.join\<close> (of two components) on a POSIX system.\<close>

definition basename :: "string \<Rightarrow> string" where
  "basename p = rev (takeWhile (\<lambda>c. c \<noteq> CHR ''/'') (rev p))"

definition path_join :: "string \<Rightarrow> string \<Rightarrow> string" where
  "path_join a b =
     (if b \<noteq> [] \<and> hd b = CHR ''/'' then b
      else if a = [] \<or> last a = CHR ''/'' then a @ b
      else a @ ''/'' @ b)"

section \<open>Regular expressions\<close>

text \<open>
  The patterns of the rule table use a small part of the syntax of \<open>re\<close>: literal
  characters, the classes \<open>\s\<close> and \<open>\d\<close>, bracket sets of characters, ranges and
  classes, the greedy quantifiers \<open>*\<close> and \<open>+\<close> on one of these, and capture groups around a
  run of them.  A pattern is kept in parsed form.  The syntax has no optional group and
  no alternation, so every group of a pattern takes part in every match of the pattern;
  what is proved below about rule tables is about tables written in this syntax.
\<close>

datatype citem = Chr char | Range char char | Whitespace | Decimal

datatype atom = Single citem | Bracket "citem list"

datatype quant = Once | Star | Plus

datatype piece = Piece atom quant

datatype node = Plain piece | Group "piece list"

type_synonym regex = "node list"

text \<open>
  Whether a character of the text is matched by an item.  Under \<open>re.IGNORECASE\<close> the
  engine lowers the character of the text and looks it up among the lowered members of
  the item.  For a range that is: the lowered character is in the range, or it is the
  lower case of an upper-case letter of the range.
\<close>

definition in_range :: "char \<Rightarrow> char \<Rightarrow> nat \<Rightarrow> bool" where
  "in_range lo hi n = (ord lo \<le> n \<and> n \<le> ord hi)"

fun item_ok :: "bool \<Rightarrow> citem \<Rightarrow> char \<Rightarrow> bool" where
  "item_ok ic (Chr l) c = (if ic then lower_cp (ord c) = lower_cp (ord l) else c = l)"
| "item_ok ic (Range lo hi) c =
     (if ic then
        (let x = lower_cp (ord c)
         in in_range lo hi x \<or> (32 \<le> x \<and> is_upper_cp (x - 32) \<and> in_range lo hi (x - 32)))
      else in_range lo hi (ord c))"
| "item_ok ic Whitespace c = isspace c"
| "item_ok ic Decimal c = isdigit c"

fun atom_ok :: "bool \<Rightarrow> atom \<Rightarrow> char \<Rightarrow> bool" where
  "atom_ok ic (Single i) c = item_ok ic i c"
| "atom_ok ic (Bracket is) c = list_ex (\<lambda>i. item_ok ic i c) is"

text \<open>
  The matcher is the backtracking one of \<open>re\<close>.  A greedy quantifier first takes the
  longest run of characters it can, and gives them back one at a time while the rest of
  the pattern fails: \<open>try_down f lo n\<close> is the first success of \<open>f\<close> at \<open>n, n - 1, ..., lo\<close>.
  The rest of the pattern is the continuation \<open>k\<close>, applied to the unread text.
\<close>

primrec try_down :: "(nat \<Rightarrow> 'a option) \<Rightarrow> nat \<Rightarrow> nat \<Rightarrow> 'a option" where
  "try_down f lo 0 = (if 0 < lo then None else f 0)"
| "try_down f lo (Suc n) =
     (if Suc n < lo then None
      else case f (Suc n) of Some r \<Rightarrow> Some r | None \<Rightarrow> try_down f lo n)"

definition run_length :: "bool \<Rightarrow> atom \<Rightarrow> string \<Rightarrow> nat" where
  "run_length ic a s = length (takeWhile (atom_ok ic a) s)"

fun match_pieces :: "bool \<Rightarrow> piece list \<Rightarrow> (string \<Rightarrow> 'a option) \<Rightarrow> string \<Rightarrow> 'a option" where
  "match_pieces ic [] k s = k s"
| "match_pieces ic (Piece a Once # ps) k [] = None"
| "match_pieces ic (Piece a Once # ps) k (c # cs) =
     (if atom_ok ic a c then match_pieces ic ps k cs else None)"
| "match_pieces ic (Piece a Star # ps) k s =
     try_down (\<lambda>n. match_pieces ic ps k (drop n s)) 0 (run_length ic a s)"
| "match_pieces ic (Piece a Plus # ps) k s =
     try_down (\<lambda>n. match_pieces ic ps k (drop n s)) 1 (run_length ic a s)"

text \<open>
  Matching a whole pattern at the head of \<open>s\<close> gives the texts of the capture groups, in
  order, and the unread text.  A group captures what its pieces consumed.
\<close>

fun match_nodes :: "bool \<Rightarrow> regex \<Rightarrow> string \<Rightarrow> (string list \<times> string) option" where
  "match_nodes ic [] s = Some ([], s)"
| "match_nodes ic (Plain p # ns) s = match_pieces ic [p] (match_nodes ic ns) s"
| "match_nodes ic (Group ps # ns) s =
     match_pieces ic ps
       (\<lambda>r. map_option (\<lambda>(gs, r'). (take (length s - length r) s # gs, r'))
              (match_nodes ic ns r)) s"

text \<open>A match object: where the match starts, the matched text, and the groups.\<close>

datatype match = Match (m_start: nat) (m_text: string) (m_groups: "string list")

text \<open>
  \<open>re.search(pattern, text, flags)\<close> tries every start position from the left, the end of
  the text included, and returns the first match, or \<open>None\<close>.
\<close>

fun search_from :: "bool \<Rightarrow> regex \<Rightarrow> nat \<Rightarrow> string \<Rightarrow> match option" where
  "search_from ic re i [] =
     (case match_nodes ic re [] of
        Some (gs, r) \<Rightarrow> Some (Match i [] gs)
      | None \<Rightarrow> None)"
| "search_from ic re i (c # cs) =
     (case match_nodes ic re (c # cs) of
        Some (gs, r) \<Rightarrow> Some (Match i (take (length (c # cs) - length r) (c # cs)) gs)
      | None \<Rightarrow> search_from ic re (Suc i) cs)"

definition re_search :: "regex \<Rightarrow> string \<Rightarrow> bool \<Rightarrow> match option" where
  "re_search pattern text ignorecase = search_from ignorecase pattern 0 text"

text \<open>The number of capture groups of a pattern (\<open>re.compile(p).groups\<close>).\<close>

fun is_group :: "node \<Rightarrow> bool" where
  "is_group (Group ps) = True"
| "is_group (Plain p) = False"

definition ngroups :: "regex \<Rightarrow> nat" where
  "ngroups re = length (filter is_group re)"

text \<open>
  What it means that a pattern matches a string, whatever the order in which a matcher
  tries the alternatives: the string splits into one segment for each piece, a piece
  taken once has a segment of one character that its atom accepts, a starred piece a
  segment of such characters, a piece with \<open>+\<close> a segment of such characters that is
  not empty, and a group captures the segments of its pieces.  \<open>accepts ic re u gs\<close>:
  the pattern matches the whole of \<open>u\<close> with the captured texts \<open>gs\<close>.
\<close>

definition splits :: "string \<Rightarrow> (string \<times> string) list" where
  "splits u = map (\<lambda>n. (take n u, drop n u)) [0 ..< Suc (length u)]"

fun seg_ok :: "bool \<Rightarrow> piece \<Rightarrow> string \<Rightarrow> bool" where
  "seg_ok ic (Piece a Once) u = (length u = 1 \<and> list_all (atom_ok ic a) u)"
| "seg_ok ic (Piece a Star) u = list_all (atom_ok ic a) u"
| "seg_ok ic (Piece a Plus) u = (u \<noteq> [] \<and> list_all (atom_ok ic a) u)"

fun pieces_accept :: "bool \<Rightarrow> piece list \<Rightarrow> string \<Rightarrow> bool" where
  "pieces_accept ic [] u = (u = [])"
| "pieces_accept ic (p # ps) u =
     list_ex (\<lambda>(v, w). seg_ok ic p v \<and> pieces_accept ic ps w) (splits u)"

fun accepts :: "bool \<Rightarrow> regex \<Rightarrow> string \<Rightarrow> string list \<Rightarrow> bool" where
  "accepts ic [] u gs = (u = [] \<and> gs = [])"
| "accepts ic (Plain p # ns) u gs =
     list_ex (\<lambda>(v, w). seg_ok ic p v \<and> accepts ic ns w gs) (splits u)"
| "accepts ic (Group ps # ns) u [] = False"
| "accepts ic (Group ps # ns) u (g # gs) =
     list_ex (\<lambda>(v, w). v = g \<and> pieces_accept ic ps v \<and> accepts ic ns w gs) (splits u)"

datatype exn = cv2_error | IndexError | ValueError | TypeError | TesseractError

text \<open>\<open>match.group(n)\<close>: group 0 is the whole match; a group the pattern does not have
  raises \<open>IndexError\<close>.\<close>

definition match_group :: "match \<Rightarrow> nat \<Rightarrow> exn + string" where
  "match_group m n =
     (if n = 0 then Inr (m_text m)
      else if n \<le> length (m_groups m) then Inr (m_groups m ! (n - 1))
      else Inl IndexError)"

text \<open>\<open>re.sub(r'\s+', ' ', text)\<close>: every maximal run of whitespace becomes one space.\<close>

function re_sub_spaces :: "string \<Rightarrow> string" where
  "re_sub_spaces [] = []"
| "re_sub_spaces (c # cs) =
     (if isspace c then CHR '' '' # re_sub_spaces (dropWhile isspace cs)
      else c # re_sub_spaces cs)"
  by pat_completeness auto
termination
  by (relation "measure length") (auto simp: less_Suc_eq_le length_dropWhile_le)

section \<open>The rule table and the field extractor\<close>

definition lit :: "string \<Rightarrow> node list" where
  "lit s = map (\<lambda>c. Plain (Piece (Single (Chr c)) Once)) s"

definition spaces0 :: node where
  "spaces0 = Plain (Piece (Single Whitespace) Star)"

definition digits1 :: node where
  "digits1 = Group [Piece (Single Decimal) Plus]"

definition letters :: "citem list" where
  "letters = [Range CHR ''A'' CHR ''Z'', Range CHR ''a'' CHR ''z'']"

text \<open>
  The dictionary \<open>patterns\<close> of \<open>Code2.py\<close>, as its items in insertion order.  The
  patterns of the source are
  \<^verbatim>\<open>PR Number\s*(\d+)\<close>,
  \<^verbatim>\<open>Technical Specifications\s*([%A-Za-z\s,]+)\<close>,
  \<^verbatim>\<open>Vendor Name\s*([A-Za-z]+)\<close>,
  \<^verbatim>\<open>Vendor Payment Terms\s*([%A-Za-z\s,]+)\<close>,
  \<^verbatim>\<open>Vendor Delivery Terms\s*([%A-Za-z\s,\d]+)\<close>,
  \<^verbatim>\<open>Cost Estimate\s*(\d+)\<close> and
  \<^verbatim>\<open>Budget Allocated\s*(\d+)\<close>.
\<close>

definition patterns :: "(string \<times> regex) list" where
  "patterns =
    [(''PR Number'', lit ''PR Number'' @ [spaces0, digits1]),
     (''Technical Specifications'',
        lit ''Technical Specifications'' @
        [spaces0, Group [Piece (Bracket (Chr CHR ''%'' # letters @ [Whitespace, Chr CHR '',''])) Plus]]),
     (''Vendor Name'', lit ''Vendor Name'' @ [spaces0, Group [Piece (Bracket letters) Plus]]),
     (''Vendor Payment Terms'',
        lit ''Vendor Payment Terms'' @
        [spaces0, Group [Piece (Bracket (Chr CHR ''%'' # letters @ [Whitespace, Chr CHR '',''])) Plus]]),
     (''Vendor Delivery Terms'',
        lit ''Vendor Delivery Terms'' @
        [spaces0,
         Group [Piece (Bracket (Chr CHR ''%'' # letters @ [Whitespace, Chr CHR '','', Decimal])) Plus]]),
     (''Cost Estimate'', lit ''Cost Estimate'' @ [spaces0, digits1]),
     (''Budget Allocated'', lit ''Budget Allocated'' @ [spaces0, digits1])]"

definition clean_text :: "string \<Rightarrow> string" where
  "clean_text text = strip (re_sub_spaces text)"

text \<open>
  What the cleaning is for: in a single-spaced string every whitespace character is a
  plain space and is followed by a character that is not whitespace; a trimmed string
  neither starts nor ends with whitespace.
\<close>

fun single_spaced :: "string \<Rightarrow> bool" where
  "single_spaced [] = True"
| "single_spaced [c] = (isspace c \<longrightarrow> c = CHR '' '')"
| "single_spaced (a # b # cs) =
     ((isspace a \<longrightarrow> a = CHR '' '' \<and> \<not> isspace b) \<and> single_spaced (b # cs))"

definition trimmed :: "string \<Rightarrow> bool" where
  "trimmed s = (s = [] \<or> (\<not> isspace (hd s) \<and> \<not> isspace (last s)))"

text \<open>
  The loop of \<open>process_file\<close> over \<open>patterns.items()\<close>.  The two variants of the program
  differ in the flag given to \<open>re.search\<close> and in what they do to the group before
  storing it, so both are arguments: \<open>re.IGNORECASE\<close> and \<open>clean_text\<close> in one,
  no flag and \<open>strip\<close> in the other.  \<open>fields[key] = v\<close> is \<open>AList.update key v fields\<close>.
\<close>

fun fields_loop ::
  "bool \<Rightarrow> (string \<Rightarrow> string) \<Rightarrow> (string \<times> regex) list \<Rightarrow> string \<Rightarrow>
   (string \<times> string) list \<Rightarrow> exn + (string \<times> string) list" where
  "fields_loop ic post [] invoice_text fields = Inr fields"
| "fields_loop ic post ((key, pattern) # rest) invoice_text fields =
     (case re_search pattern invoice_text ic of
        None \<Rightarrow> fields_loop ic post rest invoice_text fields
      | Some m \<Rightarrow>
          (case match_group m 1 of
             Inl e \<Rightarrow> Inl e
           | Inr g \<Rightarrow> fields_loop ic post rest invoice_text (AList.update key (post g) fields)))"

section \<open>Images and the external libraries\<close>

text \<open>
  An image is a \<open>numpy\<close> array of bytes: three channels in the order blue, green, red, or
  one channel.  \<open>cv2.imread\<close> with its default flag gives a three-channel image, or
  \<open>None\<close> when the file is missing or does not decode.
\<close>

type_synonym u8 = "8 word"

type_synonym bgr = "u8 \<times> u8 \<times> u8"

datatype image = Color "bgr list list" | Mono "u8 list list"

text \<open>
  What the program takes from its libraries without fixing it: the decoder behind
  \<open>cv2.imread\<close>, the luminance formula of \<open>cv2.COLOR_BGR2GRAY\<close>, the recognition engine
  behind \<open>pytesseract.image_to_string\<close> (it may raise), and the strings that successive
  calls of \<open>str(uuid.uuid4())\<close> return.
\<close>

record 'b libs =
  imdecode :: "'b \<Rightarrow> bgr list list option"
  bgr2gray :: "bgr \<Rightarrow> u8"
  image_to_string :: "image \<Rightarrow> exn + string"
  uuid4 :: "nat \<Rightarrow> string"

definition imread :: "'b libs \<Rightarrow> (string \<times> 'b) list \<Rightarrow> string \<Rightarrow> image option" where
  "imread L disk path =
     (case map_of disk path of
        None \<Rightarrow> None
      | Some bytes \<Rightarrow> map_option Color (imdecode L bytes))"

text \<open>\<open>cv2.cvtColor(src, cv2.COLOR_BGR2GRAY)\<close> raises \<open>cv2.error\<close> on \<open>None\<close>, on an
  image that has one channel and on an image without pixels.\<close>

fun cvtColor_BGR2GRAY :: "'b libs \<Rightarrow> image option \<Rightarrow> exn + image" where
  "cvtColor_BGR2GRAY L None = Inl cv2_error"
| "cvtColor_BGR2GRAY L (Some (Mono rows)) = Inl cv2_error"
| "cvtColor_BGR2GRAY L (Some (Color rows)) =
     (if concat rows = [] then Inl cv2_error else Inr (Mono (map (map (bgr2gray L)) rows)))"

datatype thresh_type = THRESH_BINARY | THRESH_BINARY_INV

fun threshold_px :: "nat \<Rightarrow> u8 \<Rightarrow> thresh_type \<Rightarrow> u8 \<Rightarrow> u8" where
  "threshold_px thresh maxval THRESH_BINARY p = (if thresh < unat p then maxval else 0)"
| "threshold_px thresh maxval THRESH_BINARY_INV p = (if thresh < unat p then 0 else maxval)"

text \<open>\<open>cv2.threshold(src, thresh, maxval, type)\<close> returns the threshold used and the
  image, every channel of every pixel thresholded.\<close>

fun threshold :: "image \<Rightarrow> nat \<Rightarrow> u8 \<Rightarrow> thresh_type \<Rightarrow> nat \<times> image" where
  "threshold (Mono rows) thresh maxval ty =
     (thresh, Mono (map (map (threshold_px thresh maxval ty)) rows))"
| "threshold (Color rows) thresh maxval ty =
     (thresh, Color (map (map (\<lambda>(b, g, r).
        (threshold_px thresh maxval ty b, threshold_px thresh maxval ty g,
         threshold_px thresh maxval ty r))) rows))"

text \<open>The two preprocessing statements of \<open>process_file\<close> in \<open>Code2.py\<close>, which the
  specification calls \<open>normalize\<close>.\<close>

definition normalize :: "'b libs \<Rightarrow> image option \<Rightarrow> exn + image" where
  "normalize L img =
     (case cvtColor_BGR2GRAY L img of
        Inl e \<Rightarrow> Inl e
      | Inr gray \<Rightarrow> Inr (snd (threshold gray 150 255 THRESH_BINARY_INV)))"

section \<open>Processing one file\<close>

text \<open>
  The repository holds the program twice.  \<open>Code2.py\<close> preprocesses the image, searches
  without regard to case and cleans the captured text; \<open>Code1.py\<close> gives the image as
  read to the recognition engine (which raises \<open>TypeError\<close> on \<open>None\<close>), searches with
  regard to case and strips the captured text.  \<open>Code1.py\<close> imports its rule table from a
  module outside the sources, so the table is an argument; \<open>patterns\<close> is the table of
  \<open>Code2.py\<close>.
\<close>

datatype variant = Code1 | Code2

datatype pyval = Str string | Dict "(string \<times> string) list"

type_synonym rules = "(string \<times> regex) list"

definition recognize :: "variant \<Rightarrow> 'b libs \<Rightarrow> image option \<Rightarrow> exn + string" where
  "recognize v L img =
     (case v of
        Code2 \<Rightarrow>
          (case normalize L img of
             Inl e \<Rightarrow> Inl e
           | Inr thresh \<Rightarrow> image_to_string L thresh)
      | Code1 \<Rightarrow>
          (case img of
             None \<Rightarrow> Inl TypeError
           | Some im \<Rightarrow> image_to_string L im))"

definition extract_fields :: "variant \<Rightarrow> rules \<Rightarrow> string \<Rightarrow> exn + (string \<times> string) list" where
  "extract_fields v rs invoice_text =
     (case v of
        Code2 \<Rightarrow> fields_loop True clean_text rs invoice_text []
      | Code1 \<Rightarrow> fields_loop False strip rs invoice_text [])"

definition outcome :: "(string \<times> string) list \<Rightarrow> pyval" where
  "outcome flds = (if flds = [] then Str ''Not an Invoice Image'' else Dict flds)"

definition process_file ::
  "variant \<Rightarrow> 'b libs \<Rightarrow> rules \<Rightarrow> (string \<times> 'b) list \<Rightarrow> string \<Rightarrow> exn + string \<times> pyval" where
  "process_file v L rs disk input_image_path =
     (case recognize v L (imread L disk input_image_path) of
        Inl e \<Rightarrow> Inl e
      | Inr invoice_text \<Rightarrow>
          (case extract_fields v rs invoice_text of
             Inl e \<Rightarrow> Inl e
           | Inr flds \<Rightarrow> Inr (basename input_image_path, outcome flds)))"

section \<open>The upload handler\<close>

definition UPLOAD_FOLDER :: string where
  "UPLOAD_FOLDER = ''input''"

definition MAX_CONTENT_LENGTH :: nat where
  "MAX_CONTENT_LENGTH = 5 * 1024 * 1024"

definition MAX_FILES :: nat where
  "MAX_FILES = 10"

definition extensions :: "variant \<Rightarrow> string list" where
  "extensions v =
     (case v of
        Code1 \<Rightarrow> [''png'', ''jpg'', ''jpeg'', ''gif'']
      | Code2 \<Rightarrow> [''png'', ''jpg'', ''jpeg'', ''gif'', ''pdf''])"

definition is_image_file :: "variant \<Rightarrow> string \<Rightarrow> bool" where
  "is_image_file v fname =
     (CHR ''.'' \<in> set fname \<and> lower (rsplit_last CHR ''.'' fname) \<in> set (extensions v))"

text \<open>\<open>generate_unique_filename\<close>, given the string that \<open>str(uuid.uuid4())\<close> returns.\<close>

definition generate_unique_filename :: "string \<Rightarrow> string \<Rightarrow> string" where
  "generate_unique_filename u fname =
     (let ext = (if CHR ''.'' \<in> set fname then lower (rsplit_last CHR ''.'' fname) else [])
      in u @ ''.'' @ ext)"

text \<open>An uploaded file: its name, the length the request declares for it, its bytes.\<close>

record 'b file_storage =
  filename :: string
  content_length :: nat
  content :: 'b

text \<open>
  What the handler changes: whether the upload folder exists, the files on disk (path
  and bytes), how many identifiers were drawn, and the paths handed to pool workers.
\<close>

record 'b world =
  folder_exists :: bool
  disk :: "(string \<times> 'b) list"
  uuid_calls :: nat
  submitted :: "string list"

datatype response = ErrorJson string | FieldsJson "(string \<times> pyval) list"

text \<open>The validation loop: the message of the first file that fails a check.\<close>

fun check_files :: "variant \<Rightarrow> 'b file_storage list \<Rightarrow> string option" where
  "check_files v [] = None"
| "check_files v (file # files) =
     (if \<not> is_image_file v (filename file) then Some (filename file @ '' is not an image file'')
      else if MAX_CONTENT_LENGTH < content_length file
      then Some (filename file @ '' is too large (max size 5MB)'')
      else check_files v files)"

text \<open>The saving loop: the new names in order, and the world with the files written.\<close>

fun save_files :: "'b libs \<Rightarrow> 'b world \<Rightarrow> 'b file_storage list \<Rightarrow> string list \<times> 'b world" where
  "save_files L w [] = ([], w)"
| "save_files L w (file # files) =
     (let fname = generate_unique_filename (uuid4 L (uuid_calls w)) (filename file);
          w' = w\<lparr>disk := AList.update (path_join UPLOAD_FOLDER fname) (content file) (disk w),
                 uuid_calls := Suc (uuid_calls w)\<rparr>;
          (fnames, w'') = save_files L w' files
      in (fname # fnames, w''))"

text \<open>\<open>[result.get() for result in results]\<close>: the values in order, or the first
  exception, which \<open>get\<close> raises again in the handler.\<close>

fun get_all :: "(exn + 'a) list \<Rightarrow> exn + 'a list" where
  "get_all [] = Inr []"
| "get_all (Inl e # rs) = Inl e"
| "get_all (Inr x # rs) = (case get_all rs of Inl e \<Rightarrow> Inl e | Inr xs \<Rightarrow> Inr (x # xs))"

text \<open>The loop that fills \<open>response\<close>, by index.\<close>

definition aggregate :: "string list \<Rightarrow> (string \<times> pyval) list \<Rightarrow> (string \<times> pyval) list" where
  "aggregate filenames fields_list =
     foldl (\<lambda>response i. AList.update (filenames ! i) (snd (fields_list ! i)) response)
       [] [0 ..< length filenames]"

text \<open>
  The pool and the aggregation.  \<open>mp.Pool(processes=n)\<close> raises \<open>ValueError\<close> when
  \<open>n < 1\<close>.  Every path is handed to a worker before the first result is awaited.
\<close>

definition run_pool ::
  "variant \<Rightarrow> 'b libs \<Rightarrow> rules \<Rightarrow> 'b world \<Rightarrow> string list \<Rightarrow> (exn + response) \<times> 'b world" where
  "run_pool v L rs w filenames =
     (if length filenames < 1 then (Inl ValueError, w)
      else
        (let paths = map (path_join UPLOAD_FOLDER) filenames;
             w' = w\<lparr>submitted := submitted w @ paths\<rparr>
         in case get_all (map (process_file v L rs (disk w')) paths) of
              Inl e \<Rightarrow> (Inl e, w')
            | Inr fields_list \<Rightarrow> (Inr (FieldsJson (aggregate filenames fields_list)), w')))"

text \<open>
  The handler, for a request that Flask has parsed.  \<open>files\<close> is
  \<open>request.files.getlist('files[]')\<close>; the key is in \<open>request.files\<close> exactly when that
  list is not empty.  The message about the number of files is the f-string of the source
  with \<open>MAX_FILES\<close> filled in.
\<close>

definition upload ::
  "variant \<Rightarrow> 'b libs \<Rightarrow> rules \<Rightarrow> 'b world \<Rightarrow> 'b file_storage list \<Rightarrow> (exn + response) \<times> 'b world" where
  "upload v L rs w files =
     (if files = [] then (Inr (ErrorJson ''No files selected for upload''), w)
      else if MAX_FILES < length files
      then (Inr (ErrorJson ''Maximum 10 files are allowed at a time''), w)
      else
        (case check_files v files of
           Some msg \<Rightarrow> (Inr (ErrorJson msg), w)
         | None \<Rightarrow>
             (let w1 = (if folder_exists w then w else w\<lparr>folder_exists := True\<rparr>);
                  (filenames, w2) = save_files L w1 files
              in run_pool v L rs w2 filenames)))"

section \<open>A sample instance\<close>

text \<open>
  One instance of the libraries, to run the program on concrete inputs: a decoder for a
  toy format (one row, one gray pixel per byte, no bytes is undecodable), the luminance
  formula in the fixed-point form of OpenCV, and a recognition engine that reads a dark
  first pixel as a line of a purchase requisition.
\<close>

definition luma :: "bgr \<Rightarrow> u8" where
  "luma = (\<lambda>(b, g, r). of_nat ((unat b * 3735 + unat g * 19235 + unat r * 9798 + 16384) div 32768))"

definition demo_decode :: "string \<Rightarrow> bgr list list option" where
  "demo_decode bytes =
     (if bytes = [] then None
      else Some [map (\<lambda>c. (of_nat (ord c), of_nat (ord c), of_nat (ord c))) bytes])"

fun demo_ocr :: "image \<Rightarrow> exn + string" where
  "demo_ocr (Mono ((p # row) # rows)) =
     Inr (if p = 255 then ''PR Number 42'' else ''no relevant content'')"
| "demo_ocr (Color ((p # row) # rows)) =
     Inr (if unat (fst p) \<le> 150 then ''PR Number 42'' else ''no relevant content'')"
| "demo_ocr im = Inl TesseractError"

definition demo_libs :: "string libs" where
  "demo_libs =
     \<lparr>imdecode = demo_decode, bgr2gray = luma, image_to_string = demo_ocr,
      uuid4 = (\<lambda>n. replicate (Suc n) CHR ''a'')\<rparr>"

definition empty_world :: "string world" where
  "empty_world = \<lparr>folder_exists = False, disk = [], uuid_calls = 0, submitted = []\<rparr>"

definition good_file :: "string file_storage" where
  "good_file = \<lparr>filename = ''scan.PNG'', content_length = 0, content = ''d''\<rparr>"

definition corrupt_file :: "string file_storage" where
  "corrupt_file = \<lparr>filename = ''bad.png'', content_length = 0, content = []\<rparr>"

text \<open>A pattern with two capture groups, \<^verbatim>\<open>(PR)\s*([A-Za-z]+)\<close>.\<close>

definition two_groups :: regex where
  "two_groups =
     [Group [Piece (Single (Chr CHR ''P'')) Once, Piece (Single (Chr CHR ''R'')) Once],
      spaces0, Group [Piece (Bracket letters) Plus]]"

definition blank_file :: "string file_storage" where
  "blank_file = \<lparr>filename = ''blank.JPG'', content_length = 0, content = [CHR 0xC8]\<rparr>"

text \<open>The world after the handler has saved \<open>good_file\<close> and \<open>blank_file\<close>, in this order.\<close>

definition saved_world :: "string world" where
  "saved_world =
     \<lparr>folder_exists = True,
      disk = [(''input/a.png'', ''d''), (''input/aa.jpg'', [CHR 0xC8])],
      uuid_calls = 2, submitted = []\<rparr>"

section \<open>Properties of the matcher\<close>

text \<open>Under \<open>re.IGNORECASE\<close> a range accepts a character exactly when some member of the
  range has the same lower case.\<close>

lemma lower_cp_idem: "lower_cp (lower_cp n) = lower_cp n"
  by (auto simp: lower_cp_def is_upper_cp_def)

lemma item_ok_Range_ignorecase:
  "item_ok True (Range lo hi) c \<longleftrightarrow>
   (\<exists>n. in_range lo hi n \<and> lower_cp n = lower_cp (ord c))"
proof
  assume a: "item_ok True (Range lo hi) c"
  let ?x = "lower_cp (ord c)"
  from a consider "in_range lo hi ?x"
    | "32 \<le> ?x" "is_upper_cp (?x - 32)" "in_range lo hi (?x - 32)"
    by (auto simp: Let_def)
  then show "\<exists>n. in_range lo hi n \<and> lower_cp n = lower_cp (ord c)"
  proof cases
    case 1
    then have "in_range lo hi ?x \<and> lower_cp ?x = ?x" by (simp add: lower_cp_idem)
    then show ?thesis by blast
  next
    case 2
    then have "in_range lo hi (?x - 32) \<and> lower_cp (?x - 32) = ?x"
      by (simp add: lower_cp_def)
    then show ?thesis by blast
  qed
next
  assume "\<exists>n. in_range lo hi n \<and> lower_cp n = lower_cp (ord c)"
  then obtain n where n: "in_range lo hi n" "lower_cp n = lower_cp (ord c)" by blast
  show "item_ok True (Range lo hi) c"
  proof (cases "is_upper_cp n")
    case True
    with n(2) have "lower_cp (ord c) = n + 32" by (simp add: lower_cp_def)
    with True n(1) show ?thesis by (simp add: Let_def)
  next
    case False
    with n(2) have "lower_cp (ord c) = n" by (simp add: lower_cp_def)
    with n(1) show ?thesis by (simp add: Let_def)
  qed
qed


lemma try_down_None:
  "try_down f lo n = None \<longleftrightarrow> (\<forall>m. lo \<le> m \<and> m \<le> n \<longrightarrow> f m = None)"
proof (induction n)
  case 0
  then show ?case by auto
next
  case (Suc n)
  show ?case
  proof (cases "Suc n < lo")
    case True
    then show ?thesis by auto
  next
    case False
    show ?thesis
    proof (cases "f (Suc n)")
      case None
      then show ?thesis using Suc False by (auto simp: le_Suc_eq)
    next
      case (Some a)
      have "lo \<le> Suc n \<and> Suc n \<le> Suc n" using False by simp
      with Some have "\<not> (\<forall>m. lo \<le> m \<and> m \<le> Suc n \<longrightarrow> f m = None)"
        by (metis option.distinct(1))
      with Some False show ?thesis by simp
    qed
  qed
qed

lemma try_down_Some:
  "try_down f lo n = Some x \<Longrightarrow> \<exists>m. lo \<le> m \<and> m \<le> n \<and> f m = Some x"
proof (induction n)
  case 0
  then show ?case by (auto split: if_splits)
next
  case (Suc n)
  show ?case
  proof (cases "f (Suc n)")
    case None
    with Suc.prems have "try_down f lo n = Some x" by (auto split: if_splits)
    from Suc.IH[OF this] show ?thesis by (auto simp: le_Suc_eq)
  next
    case (Some a)
    with Suc.prems have "\<not> Suc n < lo" "a = x" by (auto split: if_splits)
    with Some have "lo \<le> Suc n \<and> Suc n \<le> Suc n \<and> f (Suc n) = Some x" by simp
    then show ?thesis by blast
  qed
qed

lemma match_pieces_Some:
  "match_pieces ic ps k s = Some x \<Longrightarrow> \<exists>r. k r = Some x \<and> length r \<le> length s"
proof (induction ic ps k s rule: match_pieces.induct)
  case (1 ic k s)
  then show ?case by auto
next
  case (2 ic a ps k)
  then show ?case by simp
next
  case (3 ic a ps k c cs)
  then show ?case by (fastforce split: if_splits)
next
  case (4 ic a ps k s)
  from 4(2) obtain m where "match_pieces ic ps k (drop m s) = Some x"
    by (auto dest: try_down_Some)
  from 4(1)[OF this] show ?case by auto
next
  case (5 ic a ps k s)
  from 5(2) obtain m where "match_pieces ic ps k (drop m s) = Some x"
    by (auto dest: try_down_Some)
  from 5(1)[OF this] show ?case by auto
qed

lemma match_nodes_groups:
  "match_nodes ic ns s = Some (gs, r) \<Longrightarrow> length gs = ngroups ns"
proof (induction ic ns s arbitrary: gs r rule: match_nodes.induct)
  case (1 ic s)
  then show ?case by (simp add: ngroups_def)
next
  case (2 ic p ns s)
  from 2(2) obtain r' where "match_nodes ic ns r' = Some (gs, r)"
    by (auto dest: match_pieces_Some)
  from 2(1)[OF this] show ?case by (simp add: ngroups_def)
next
  case (3 ic ps ns s)
  from 3(2) obtain r' where
    "map_option (\<lambda>(gs, y). (take (length s - length r') s # gs, y)) (match_nodes ic ns r') = Some (gs, r)"
    by (auto dest!: match_pieces_Some)
  then obtain gs' where "match_nodes ic ns r' = Some (gs', r)" "gs = take (length s - length r') s # gs'"
    by auto
  with 3(1) show ?case by (simp add: ngroups_def)
qed

lemma search_from_None:
  "search_from ic re i s = None \<longleftrightarrow> (\<forall>j\<le>length s. match_nodes ic re (drop j s) = None)"
proof (induction s arbitrary: i)
  case Nil
  then show ?case by (auto split: option.splits)
next
  case (Cons c cs)
  show ?case
  proof (cases "match_nodes ic re (c # cs)")
    case None
    have "(\<forall>j\<le>length (c # cs). match_nodes ic re (drop j (c # cs)) = None) \<longleftrightarrow>
          (\<forall>j\<le>length cs. match_nodes ic re (drop j cs) = None)"
    proof
      assume a: "\<forall>j\<le>length (c # cs). match_nodes ic re (drop j (c # cs)) = None"
      show "\<forall>j\<le>length cs. match_nodes ic re (drop j cs) = None"
      proof (intro allI impI)
        fix j assume "j \<le> length cs"
        with a have "match_nodes ic re (drop (Suc j) (c # cs)) = None" by (metis Suc_le_mono length_Cons)
        then show "match_nodes ic re (drop j cs) = None" by simp
      qed
    next
      assume a: "\<forall>j\<le>length cs. match_nodes ic re (drop j cs) = None"
      show "\<forall>j\<le>length (c # cs). match_nodes ic re (drop j (c # cs)) = None"
      proof (intro allI impI)
        fix j assume j: "j \<le> length (c # cs)"
        show "match_nodes ic re (drop j (c # cs)) = None"
        proof (cases j)
          case 0
          then show ?thesis using None by simp
        next
          case (Suc j')
          then show ?thesis using a j by simp
        qed
      qed
    qed
    with None Cons.IH show ?thesis by simp
  next
    case (Some a)
    then have "\<not> (\<forall>j\<le>length (c # cs). match_nodes ic re (drop j (c # cs)) = None)"
      by (metis drop0 le0 option.distinct(1))
    with Some show ?thesis by (auto split: prod.splits)
  qed
qed

lemma search_from_Some:
  "search_from ic re i s = Some m \<Longrightarrow>
   \<exists>j gs r. j \<le> length s \<and> m_start m = i + j \<and> m_groups m = gs \<and>
     match_nodes ic re (drop j s) = Some (gs, r) \<and>
     m_text m = take (length (drop j s) - length r) (drop j s) \<and>
     (\<forall>j'<j. match_nodes ic re (drop j' s) = None)"
proof (induction s arbitrary: i)
  case Nil
  then show ?case by (auto split: option.splits)
next
  case (Cons c cs)
  show ?case
  proof (cases "match_nodes ic re (c # cs)")
    case None
    with Cons.prems have "search_from ic re (Suc i) cs = Some m" by simp
    from Cons.IH[OF this] obtain j gs r where j:
      "j \<le> length cs" "m_start m = Suc i + j" "m_groups m = gs"
      "match_nodes ic re (drop j cs) = Some (gs, r)"
      "m_text m = take (length (drop j cs) - length r) (drop j cs)"
      "\<forall>j'<j. match_nodes ic re (drop j' cs) = None" by blast
    have "\<forall>j'<Suc j. match_nodes ic re (drop j' (c # cs)) = None"
    proof (intro allI impI)
      fix j' assume "j' < Suc j"
      then show "match_nodes ic re (drop j' (c # cs)) = None"
        using None j(6) by (cases j') auto
    qed
    with j have "Suc j \<le> length (c # cs) \<and> m_start m = i + Suc j \<and> m_groups m = gs \<and>
      match_nodes ic re (drop (Suc j) (c # cs)) = Some (gs, r) \<and>
      m_text m = take (length (drop (Suc j) (c # cs)) - length r) (drop (Suc j) (c # cs)) \<and>
      (\<forall>j'<Suc j. match_nodes ic re (drop j' (c # cs)) = None)" by simp
    then show ?thesis by blast
  next
    case (Some a)
    obtain gs r where a: "a = (gs, r)" by (cases a)
    with Some Cons.prems have "m = Match i (take (length (c # cs) - length r) (c # cs)) gs" by simp
    with Some a have "0 \<le> length (c # cs) \<and> m_start m = i + 0 \<and> m_groups m = gs \<and>
      match_nodes ic re (drop 0 (c # cs)) = Some (gs, r) \<and>
      m_text m = take (length (drop 0 (c # cs)) - length r) (drop 0 (c # cs)) \<and>
      (\<forall>j'<0. match_nodes ic re (drop j' (c # cs)) = None)" by simp
    then show ?thesis by blast
  qed
qed

lemma re_search_groups:
  "re_search p t ic = Some m \<Longrightarrow> length (m_groups m) = ngroups p"
  unfolding re_search_def by (auto dest!: search_from_Some match_nodes_groups)

lemma group1_ok:
  "re_search p t ic = Some m \<Longrightarrow> 1 \<le> ngroups p \<Longrightarrow> match_group m 1 = Inr (m_groups m ! 0)"
  by (drule re_search_groups) (simp add: match_group_def)

lemma group1_fail:
  "re_search p t ic = Some m \<Longrightarrow> ngroups p = 0 \<Longrightarrow> match_group m 1 = Inl IndexError"
  by (drule re_search_groups) (simp add: match_group_def)

section \<open>The matcher finds the matches\<close>

lemma set_splits: "set (splits u) = {(v, w). u = v @ w}"
proof -
  have "\<And>v w. u = v @ w \<Longrightarrow> (v, w) \<in> set (splits u)"
  proof -
    fix v w assume "u = v @ w"
    then have "(v, w) = (take (length v) u, drop (length v) u)" "length v < Suc (length u)"
      by simp_all
    then show "(v, w) \<in> set (splits u)" unfolding splits_def
      by (metis (no_types, lifting) atLeast0LessThan image_eqI lessThan_iff list.set_map set_upt)
  qed
  moreover have "\<And>v w. (v, w) \<in> set (splits u) \<Longrightarrow> u = v @ w"
    by (auto simp: splits_def)
  ultimately show ?thesis by auto
qed

lemma ex_splits: "list_ex (\<lambda>(v, w). P v w) (splits u) \<longleftrightarrow> (\<exists>v w. u = v @ w \<and> P v w)"
  by (auto simp: list_ex_iff set_splits)

lemma pieces_accept_Cons:
  "pieces_accept ic (p # ps) u \<longleftrightarrow> (\<exists>v w. u = v @ w \<and> seg_ok ic p v \<and> pieces_accept ic ps w)"
  by (simp add: ex_splits)

lemma accepts_Plain:
  "accepts ic (Plain p # ns) u gs \<longleftrightarrow> (\<exists>v w. u = v @ w \<and> seg_ok ic p v \<and> accepts ic ns w gs)"
  by (simp add: ex_splits)

lemma accepts_Group:
  "accepts ic (Group ps # ns) u gs \<longleftrightarrow>
   (\<exists>g gs' w. gs = g # gs' \<and> u = g @ w \<and> pieces_accept ic ps g \<and> accepts ic ns w gs')"
  by (cases gs) (auto simp: ex_splits)

lemma seg_ok_Once: "seg_ok ic (Piece a Once) u \<longleftrightarrow> (\<exists>c. u = [c] \<and> atom_ok ic a c)"
  by (cases u) (auto simp: seg_ok.simps(1))

declare pieces_accept.simps(2) [simp del] accepts.simps(2,4) [simp del] seg_ok.simps(1) [simp del]

lemma pieces_accept_Once:
  "pieces_accept ic (Piece a Once # ps) u \<longleftrightarrow>
   (\<exists>c w. u = c # w \<and> atom_ok ic a c \<and> pieces_accept ic ps w)"
proof
  assume "pieces_accept ic (Piece a Once # ps) u"
  then show "\<exists>c w. u = c # w \<and> atom_ok ic a c \<and> pieces_accept ic ps w"
    by (auto simp: pieces_accept_Cons seg_ok_Once)
next
  assume "\<exists>c w. u = c # w \<and> atom_ok ic a c \<and> pieces_accept ic ps w"
  then obtain c w where "u = [c] @ w" "atom_ok ic a c" "pieces_accept ic ps w" by auto
  then have "u = [c] @ w \<and> seg_ok ic (Piece a Once) [c] \<and> pieces_accept ic ps w"
    by (simp add: seg_ok_Once)
  then show "pieces_accept ic (Piece a Once # ps) u"
    unfolding pieces_accept_Cons by blast
qed

lemma run_ge: "list_all P v \<Longrightarrow> length v \<le> length (takeWhile P (v @ t))"
  by (induction v) auto

lemma run_take: "m \<le> length (takeWhile P s) \<Longrightarrow> list_all P (take m s)"
proof (induction s arbitrary: m)
  case Nil
  then show ?case by simp
next
  case (Cons c s)
  then show ?case by (cases m) (auto split: if_splits)
qed

lemma star_split:
  "(\<exists>v w. s = v @ w \<and> lo \<le> length v \<and> list_all P v \<and> Q w) \<longleftrightarrow>
   (\<exists>m. lo \<le> m \<and> m \<le> length (takeWhile P s) \<and> Q (drop m s))"
proof
  assume "\<exists>v w. s = v @ w \<and> lo \<le> length v \<and> list_all P v \<and> Q w"
  then obtain v w where a: "s = v @ w" "lo \<le> length v" "list_all P v" "Q w" by blast
  from a(1,3) have "length v \<le> length (takeWhile P s)" by (simp add: run_ge)
  moreover from a(1,4) have "Q (drop (length v) s)" by simp
  ultimately show "\<exists>m. lo \<le> m \<and> m \<le> length (takeWhile P s) \<and> Q (drop m s)"
    using a(2) by blast
next
  assume "\<exists>m. lo \<le> m \<and> m \<le> length (takeWhile P s) \<and> Q (drop m s)"
  then obtain m where a: "lo \<le> m" "m \<le> length (takeWhile P s)" "Q (drop m s)" by blast
  have "length (takeWhile P s) \<le> length s" by (rule length_takeWhile_le)
  with a(2) have "length (take m s) = m" by simp
  with a run_take[OF a(2)] have
    "s = take m s @ drop m s \<and> lo \<le> length (take m s) \<and> list_all P (take m s) \<and> Q (drop m s)"
    by simp
  then show "\<exists>v w. s = v @ w \<and> lo \<le> length v \<and> list_all P v \<and> Q w" by blast
qed

lemma none_iff_no_split:
  "(\<forall>u r. (s::string) = u @ r \<longrightarrow> B u \<longrightarrow> k r = None) \<longleftrightarrow>
   \<not> (\<exists>u r. s = u @ r \<and> B u \<and> k r \<noteq> None)"
  by auto

lemma none_iff_not: "(A \<noteq> None) = E \<Longrightarrow> (A = None) = (\<not> E)"
  by auto

lemma match_pieces_None:
  "match_pieces ic ps k s = None \<longleftrightarrow>
   (\<forall>u r. s = u @ r \<longrightarrow> pieces_accept ic ps u \<longrightarrow> k r = None)"
proof (induction ic ps k s rule: match_pieces.induct)
  case (1 ic k s)
  then show ?case by simp
next
  case (2 ic a ps k)
  then show ?case by (simp add: pieces_accept_Once)
next
  case (3 ic a ps k c cs)
  show ?case
  proof (cases "atom_ok ic a c")
    case True
    have "(\<forall>u r. c # cs = u @ r \<longrightarrow> pieces_accept ic (Piece a Once # ps) u \<longrightarrow> k r = None) \<longleftrightarrow>
          (\<forall>w r. cs = w @ r \<longrightarrow> pieces_accept ic ps w \<longrightarrow> k r = None)"
    proof
      assume l: "\<forall>u r. c # cs = u @ r \<longrightarrow> pieces_accept ic (Piece a Once # ps) u \<longrightarrow> k r = None"
      show "\<forall>w r. cs = w @ r \<longrightarrow> pieces_accept ic ps w \<longrightarrow> k r = None"
      proof (intro allI impI)
        fix w r assume "cs = w @ r" "pieces_accept ic ps w"
        with True have "c # cs = (c # w) @ r" "pieces_accept ic (Piece a Once # ps) (c # w)"
          by (simp_all add: pieces_accept_Once)
        with l show "k r = None" by blast
      qed
    next
      assume r: "\<forall>w r. cs = w @ r \<longrightarrow> pieces_accept ic ps w \<longrightarrow> k r = None"
      show "\<forall>u r. c # cs = u @ r \<longrightarrow> pieces_accept ic (Piece a Once # ps) u \<longrightarrow> k r = None"
      proof (intro allI impI)
        fix u t assume e: "c # cs = u @ t" and "pieces_accept ic (Piece a Once # ps) u"
        then obtain d w where u: "u = d # w" "pieces_accept ic ps w"
          by (auto simp: pieces_accept_Once)
        with e have "cs = w @ t" by simp
        with r u(2) show "k t = None" by blast
      qed
    qed
    with 3 True show ?thesis by simp
  next
    case False
    have "\<forall>u r. c # cs = u @ r \<longrightarrow> pieces_accept ic (Piece a Once # ps) u \<longrightarrow> k r = None"
    proof (intro allI impI)
      fix u t assume e: "c # cs = u @ t" and "pieces_accept ic (Piece a Once # ps) u"
      then obtain d w where u: "u = d # w" "atom_ok ic a d"
        by (auto simp: pieces_accept_Once)
      with e False show "k t = None" by simp
    qed
    with False show ?thesis by simp
  qed
next
  case (4 ic a ps k s)
  let ?P = "atom_ok ic a"
  let ?Q = "\<lambda>t. \<exists>w r. t = w @ r \<and> pieces_accept ic ps w \<and> k r \<noteq> None"
  have "match_pieces ic (Piece a Star # ps) k s \<noteq> None \<longleftrightarrow>
        (\<exists>m. 0 \<le> m \<and> m \<le> length (takeWhile ?P s) \<and> match_pieces ic ps k (drop m s) \<noteq> None)"
    by (simp add: try_down_None run_length_def)
  also have "\<dots> \<longleftrightarrow> (\<exists>m. 0 \<le> m \<and> m \<le> length (takeWhile ?P s) \<and> ?Q (drop m s))"
    using 4 by simp
  also have "\<dots> \<longleftrightarrow> (\<exists>v w. s = v @ w \<and> 0 \<le> length v \<and> list_all ?P v \<and> ?Q w)"
    by (rule star_split[symmetric])
  also have "\<dots> \<longleftrightarrow> (\<exists>u r. s = u @ r \<and> pieces_accept ic (Piece a Star # ps) u \<and> k r \<noteq> None)"
  proof
    assume "\<exists>v w. s = v @ w \<and> 0 \<le> length v \<and> list_all ?P v \<and> ?Q w"
    then obtain v w r where a: "s = v @ w @ r" "list_all ?P v" "pieces_accept ic ps w" "k r \<noteq> None"
      by blast
    then have "s = (v @ w) @ r \<and> pieces_accept ic (Piece a Star # ps) (v @ w) \<and> k r \<noteq> None"
      unfolding pieces_accept_Cons by auto
    then show "\<exists>u r. s = u @ r \<and> pieces_accept ic (Piece a Star # ps) u \<and> k r \<noteq> None" by blast
  next
    assume "\<exists>u r. s = u @ r \<and> pieces_accept ic (Piece a Star # ps) u \<and> k r \<noteq> None"
    then obtain v w r where a: "s = (v @ w) @ r" "list_all ?P v" "pieces_accept ic ps w" "k r \<noteq> None"
      unfolding pieces_accept_Cons by auto
    then have "s = v @ (w @ r) \<and> 0 \<le> length v \<and> list_all ?P v \<and> ?Q (w @ r)" by auto
    then show "\<exists>v w. s = v @ w \<and> 0 \<le> length v \<and> list_all ?P v \<and> ?Q w" by blast
  qed
  finally have F: "match_pieces ic (Piece a Star # ps) k s \<noteq> None \<longleftrightarrow>
      (\<exists>u r. s = u @ r \<and> pieces_accept ic (Piece a Star # ps) u \<and> k r \<noteq> None)" .
  have G: "(\<forall>u r. s = u @ r \<longrightarrow> pieces_accept ic (Piece a Star # ps) u \<longrightarrow> k r = None) \<longleftrightarrow>
      \<not> (\<exists>u r. s = u @ r \<and> pieces_accept ic (Piece a Star # ps) u \<and> k r \<noteq> None)"
    by (rule none_iff_no_split)
  from F have "match_pieces ic (Piece a Star # ps) k s = None \<longleftrightarrow>
      \<not> (\<exists>u r. s = u @ r \<and> pieces_accept ic (Piece a Star # ps) u \<and> k r \<noteq> None)"
    by (rule none_iff_not)
  then show ?case unfolding G .
next
  case (5 ic a ps k s)
  let ?P = "atom_ok ic a"
  let ?Q = "\<lambda>t. \<exists>w r. t = w @ r \<and> pieces_accept ic ps w \<and> k r \<noteq> None"
  have "match_pieces ic (Piece a Plus # ps) k s \<noteq> None \<longleftrightarrow>
        (\<exists>m. 1 \<le> m \<and> m \<le> length (takeWhile ?P s) \<and> match_pieces ic ps k (drop m s) \<noteq> None)"
    by (simp add: try_down_None run_length_def)
  also have "\<dots> \<longleftrightarrow> (\<exists>m. 1 \<le> m \<and> m \<le> length (takeWhile ?P s) \<and> ?Q (drop m s))"
    using 5 by simp
  also have "\<dots> \<longleftrightarrow> (\<exists>v w. s = v @ w \<and> 1 \<le> length v \<and> list_all ?P v \<and> ?Q w)"
    by (rule star_split[symmetric])
  also have "\<dots> \<longleftrightarrow> (\<exists>u r. s = u @ r \<and> pieces_accept ic (Piece a Plus # ps) u \<and> k r \<noteq> None)"
  proof
    assume "\<exists>v w. s = v @ w \<and> 1 \<le> length v \<and> list_all ?P v \<and> ?Q w"
    then obtain v w r where a: "s = v @ w @ r" "1 \<le> length v" "list_all ?P v"
      "pieces_accept ic ps w" "k r \<noteq> None"
      by blast
    then have "v \<noteq> []" by auto
    with a have "s = (v @ w) @ r \<and> pieces_accept ic (Piece a Plus # ps) (v @ w) \<and> k r \<noteq> None"
      unfolding pieces_accept_Cons by auto
    then show "\<exists>u r. s = u @ r \<and> pieces_accept ic (Piece a Plus # ps) u \<and> k r \<noteq> None" by blast
  next
    assume "\<exists>u r. s = u @ r \<and> pieces_accept ic (Piece a Plus # ps) u \<and> k r \<noteq> None"
    then obtain v w r where a: "s = (v @ w) @ r" "v \<noteq> []" "list_all ?P v"
      "pieces_accept ic ps w" "k r \<noteq> None"
      unfolding pieces_accept_Cons by auto
    then have "1 \<le> length v" by (cases v) auto
    with a have "s = v @ (w @ r) \<and> 1 \<le> length v \<and> list_all ?P v \<and> ?Q (w @ r)" by auto
    then show "\<exists>v w. s = v @ w \<and> 1 \<le> length v \<and> list_all ?P v \<and> ?Q w" by blast
  qed
  finally have F: "match_pieces ic (Piece a Plus # ps) k s \<noteq> None \<longleftrightarrow>
      (\<exists>u r. s = u @ r \<and> pieces_accept ic (Piece a Plus # ps) u \<and> k r \<noteq> None)" .
  have G: "(\<forall>u r. s = u @ r \<longrightarrow> pieces_accept ic (Piece a Plus # ps) u \<longrightarrow> k r = None) \<longleftrightarrow>
      \<not> (\<exists>u r. s = u @ r \<and> pieces_accept ic (Piece a Plus # ps) u \<and> k r \<noteq> None)"
    by (rule none_iff_no_split)
  from F have "match_pieces ic (Piece a Plus # ps) k s = None \<longleftrightarrow>
      \<not> (\<exists>u r. s = u @ r \<and> pieces_accept ic (Piece a Plus # ps) u \<and> k r \<noteq> None)"
    by (rule none_iff_not)
  then show ?case unfolding G .
qed

lemma match_pieces_Some_split:
  "match_pieces ic ps k s = Some x \<Longrightarrow>
   \<exists>u r. s = u @ r \<and> pieces_accept ic ps u \<and> k r = Some x"
proof (induction ic ps k s rule: match_pieces.induct)
  case (1 ic k s)
  then have "s = [] @ s \<and> pieces_accept ic [] [] \<and> k s = Some x" by simp
  then show ?case by blast
next
  case (2 ic a ps k)
  then show ?case by simp
next
  case (3 ic a ps k c cs)
  then have ok: "atom_ok ic a c" and m: "match_pieces ic ps k cs = Some x"
    by (auto split: if_splits)
  from 3(1)[OF ok m] obtain u r where "cs = u @ r" "pieces_accept ic ps u" "k r = Some x" by blast
  with ok have "c # cs = (c # u) @ r \<and> pieces_accept ic (Piece a Once # ps) (c # u) \<and> k r = Some x"
    by (simp add: pieces_accept_Once)
  then show ?case by blast
next
  case (4 ic a ps k s)
  from 4(2) obtain m where m: "m \<le> length (takeWhile (atom_ok ic a) s)"
    "match_pieces ic ps k (drop m s) = Some x"
    by (auto simp: run_length_def dest: try_down_Some)
  from 4(1)[OF m(2)] obtain u r where u: "drop m s = u @ r" "pieces_accept ic ps u" "k r = Some x"
    by blast
  have "s = take m s @ drop m s" by simp
  with u(1) have e: "s = (take m s @ u) @ r" by simp
  from run_take[OF m(1)] u(2) have "take m s @ u = take m s @ u \<and>
      seg_ok ic (Piece a Star) (take m s) \<and> pieces_accept ic ps u" by simp
  then have "pieces_accept ic (Piece a Star # ps) (take m s @ u)"
    unfolding pieces_accept_Cons by blast
  with e u(3) show ?case by blast
next
  case (5 ic a ps k s)
  from 5(2) obtain m where m: "1 \<le> m" "m \<le> length (takeWhile (atom_ok ic a) s)"
    "match_pieces ic ps k (drop m s) = Some x"
    by (auto simp: run_length_def dest: try_down_Some)
  from 5(1)[OF m(3)] obtain u r where u: "drop m s = u @ r" "pieces_accept ic ps u" "k r = Some x"
    by blast
  have "s = take m s @ drop m s" by simp
  with u(1) have e: "s = (take m s @ u) @ r" by simp
  have "length (takeWhile (atom_ok ic a) s) \<le> length s" by (rule length_takeWhile_le)
  with m(1,2) have "take m s \<noteq> []" by auto
  with run_take[OF m(2)] u(2) have "take m s @ u = take m s @ u \<and>
      seg_ok ic (Piece a Plus) (take m s) \<and> pieces_accept ic ps u" by simp
  then have "pieces_accept ic (Piece a Plus # ps) (take m s @ u)"
    unfolding pieces_accept_Cons by blast
  with e u(3) show ?case by blast
qed

lemma pieces_accept_single: "pieces_accept ic [p] u \<longleftrightarrow> seg_ok ic p u"
  by (simp add: pieces_accept_Cons)

lemma match_nodes_sound:
  "match_nodes ic ns s = Some (gs, r) \<Longrightarrow> \<exists>u. s = u @ r \<and> accepts ic ns u gs"
proof (induction ic ns s arbitrary: gs r rule: match_nodes.induct)
  case (1 ic s)
  then show ?case by simp
next
  case (2 ic p ns s)
  from 2(2) obtain v r' where v: "s = v @ r'" "seg_ok ic p v" "match_nodes ic ns r' = Some (gs, r)"
    by (auto dest!: match_pieces_Some_split simp: pieces_accept_single)
  from 2(1)[OF v(3)] obtain w where w: "r' = w @ r" "accepts ic ns w gs" by blast
  with v have "s = (v @ w) @ r \<and> accepts ic (Plain p # ns) (v @ w) gs"
    unfolding accepts_Plain by auto
  then show ?case by blast
next
  case (3 ic ps ns s)
  from 3(2) obtain g r' where g: "s = g @ r'" "pieces_accept ic ps g"
    "map_option (\<lambda>(gs, y). (take (length s - length r') s # gs, y)) (match_nodes ic ns r') = Some (gs, r)"
    by (auto dest!: match_pieces_Some_split)
  then obtain gs' where gs': "match_nodes ic ns r' = Some (gs', r)" "gs = g # gs'"
    by auto
  from 3(1)[OF gs'(1)] obtain w where w: "r' = w @ r" "accepts ic ns w gs'" by blast
  with g gs' have "s = (g @ w) @ r \<and> accepts ic (Group ps # ns) (g @ w) gs"
    unfolding accepts_Group by auto
  then show ?case by blast
qed

lemma match_nodes_complete:
  "match_nodes ic ns s = None \<longleftrightarrow> (\<forall>u r gs. s = u @ r \<longrightarrow> \<not> accepts ic ns u gs)"
proof (induction ic ns s rule: match_nodes.induct)
  case (1 ic s)
  have "s = [] @ s \<and> accepts ic [] [] []" by simp
  then have "\<not> (\<forall>u r gs. s = u @ r \<longrightarrow> \<not> accepts ic [] u gs)" by blast
  then show ?case by simp
next
  case (2 ic p ns s)
  have "match_nodes ic (Plain p # ns) s = None \<longleftrightarrow>
        (\<forall>v r'. s = v @ r' \<longrightarrow> seg_ok ic p v \<longrightarrow> match_nodes ic ns r' = None)"
    by (simp add: match_pieces_None pieces_accept_single)
  also have "\<dots> \<longleftrightarrow> (\<forall>v r'. s = v @ r' \<longrightarrow> seg_ok ic p v \<longrightarrow>
        (\<forall>w r gs. r' = w @ r \<longrightarrow> \<not> accepts ic ns w gs))"
    using 2 by simp
  also have "\<dots> \<longleftrightarrow> (\<forall>u r gs. s = u @ r \<longrightarrow> \<not> accepts ic (Plain p # ns) u gs)"
  proof
    assume l: "\<forall>v r'. s = v @ r' \<longrightarrow> seg_ok ic p v \<longrightarrow> (\<forall>w r gs. r' = w @ r \<longrightarrow> \<not> accepts ic ns w gs)"
    show "\<forall>u r gs. s = u @ r \<longrightarrow> \<not> accepts ic (Plain p # ns) u gs"
    proof (intro allI impI notI)
      fix u r gs assume "s = u @ r" "accepts ic (Plain p # ns) u gs"
      then obtain v w where "s = v @ (w @ r)" "seg_ok ic p v" "accepts ic ns w gs"
        unfolding accepts_Plain by auto
      with l show False by blast
    qed
  next
    assume r: "\<forall>u r gs. s = u @ r \<longrightarrow> \<not> accepts ic (Plain p # ns) u gs"
    show "\<forall>v r'. s = v @ r' \<longrightarrow> seg_ok ic p v \<longrightarrow> (\<forall>w r gs. r' = w @ r \<longrightarrow> \<not> accepts ic ns w gs)"
    proof (intro allI impI notI)
      fix v r' w t gs assume "s = v @ r'" "seg_ok ic p v" "r' = w @ t" "accepts ic ns w gs"
      then have "s = (v @ w) @ t" "accepts ic (Plain p # ns) (v @ w) gs"
        unfolding accepts_Plain by auto
      with r show False by blast
    qed
  qed
  finally show ?case .
next
  case (3 ic ps ns s)
  have "match_nodes ic (Group ps # ns) s = None \<longleftrightarrow>
        (\<forall>g r'. s = g @ r' \<longrightarrow> pieces_accept ic ps g \<longrightarrow> match_nodes ic ns r' = None)"
    by (simp add: match_pieces_None)
  also have "\<dots> \<longleftrightarrow> (\<forall>g r'. s = g @ r' \<longrightarrow> pieces_accept ic ps g \<longrightarrow>
        (\<forall>w r gs. r' = w @ r \<longrightarrow> \<not> accepts ic ns w gs))"
    using 3 by simp
  also have "\<dots> \<longleftrightarrow> (\<forall>u r gs. s = u @ r \<longrightarrow> \<not> accepts ic (Group ps # ns) u gs)"
  proof
    assume l: "\<forall>g r'. s = g @ r' \<longrightarrow> pieces_accept ic ps g \<longrightarrow> (\<forall>w r gs. r' = w @ r \<longrightarrow> \<not> accepts ic ns w gs)"
    show "\<forall>u r gs. s = u @ r \<longrightarrow> \<not> accepts ic (Group ps # ns) u gs"
    proof (intro allI impI notI)
      fix u r gs assume "s = u @ r" "accepts ic (Group ps # ns) u gs"
      then obtain g gs' w where "s = g @ (w @ r)" "pieces_accept ic ps g" "accepts ic ns w gs'"
        unfolding accepts_Group by auto
      with l show False by blast
    qed
  next
    assume r: "\<forall>u r gs. s = u @ r \<longrightarrow> \<not> accepts ic (Group ps # ns) u gs"
    show "\<forall>g r'. s = g @ r' \<longrightarrow> pieces_accept ic ps g \<longrightarrow> (\<forall>w r gs. r' = w @ r \<longrightarrow> \<not> accepts ic ns w gs)"
    proof (intro allI impI notI)
      fix g r' w t gs assume "s = g @ r'" "pieces_accept ic ps g" "r' = w @ t" "accepts ic ns w gs"
      then have "s = (g @ w) @ t" "accepts ic (Group ps # ns) (g @ w) (g # gs)"
        unfolding accepts_Group by auto
      with r show False by blast
    qed
  qed
  finally show ?case .
qed

lemma re_search_None_iff:
  "re_search p t ic = None \<longleftrightarrow> (\<forall>u v w gs. t = u @ v @ w \<longrightarrow> \<not> accepts ic p v gs)"
proof -
  have "re_search p t ic = None \<longleftrightarrow>
        (\<forall>j\<le>length t. \<forall>v w gs. drop j t = v @ w \<longrightarrow> \<not> accepts ic p v gs)"
    by (simp add: re_search_def search_from_None match_nodes_complete)
  also have "\<dots> \<longleftrightarrow> (\<forall>u v w gs. t = u @ v @ w \<longrightarrow> \<not> accepts ic p v gs)"
  proof
    assume l: "\<forall>j\<le>length t. \<forall>v w gs. drop j t = v @ w \<longrightarrow> \<not> accepts ic p v gs"
    show "\<forall>u v w gs. t = u @ v @ w \<longrightarrow> \<not> accepts ic p v gs"
    proof (intro allI impI)
      fix u v w gs assume "t = u @ v @ w"
      then have "length u \<le> length t" "drop (length u) t = v @ w" by simp_all
      with l show "\<not> accepts ic p v gs" by blast
    qed
  next
    assume r: "\<forall>u v w gs. t = u @ v @ w \<longrightarrow> \<not> accepts ic p v gs"
    show "\<forall>j\<le>length t. \<forall>v w gs. drop j t = v @ w \<longrightarrow> \<not> accepts ic p v gs"
    proof (intro allI impI)
      fix j v w gs assume "drop j t = v @ w"
      then have "t = take j t @ v @ w" by (metis append_take_drop_id)
      with r show "\<not> accepts ic p v gs" by blast
    qed
  qed
  finally show ?thesis .
qed

lemma re_search_Some:
  assumes "re_search p t ic = Some m"
  shows "(\<exists>u w. t = u @ m_text m @ w \<and> length u = m_start m) \<and>
     accepts ic p (m_text m) (m_groups m) \<and>
     (\<forall>u v w gs. t = u @ v @ w \<longrightarrow> accepts ic p v gs \<longrightarrow> m_start m \<le> length u)"
proof -
  from assms have "search_from ic p 0 t = Some m" by (simp add: re_search_def)
  from search_from_Some[OF this] obtain j gs r where
    j: "j \<le> length t" "m_start m = j" "m_groups m = gs"
       "match_nodes ic p (drop j t) = Some (gs, r)"
       "m_text m = take (length (drop j t) - length r) (drop j t)"
       "\<forall>j'<j. match_nodes ic p (drop j' t) = None" by auto
  from match_nodes_sound[OF j(4)] obtain v where v: "drop j t = v @ r" "accepts ic p v gs" by blast
  with j(5) have tx: "m_text m = v" by simp
  have "t = take j t @ drop j t" by simp
  with v(1) tx j(1,2) have "t = take j t @ m_text m @ r \<and> length (take j t) = m_start m" by simp
  then have a: "\<exists>u w. t = u @ m_text m @ w \<and> length u = m_start m" by blast
  have b: "accepts ic p (m_text m) (m_groups m)" using v(2) tx j(3) by simp
  have c: "\<forall>u v w gs. t = u @ v @ w \<longrightarrow> accepts ic p v gs \<longrightarrow> m_start m \<le> length u"
  proof (intro allI impI)
    fix u v' w gs' assume e: "t = u @ v' @ w" and acc: "accepts ic p v' gs'"
    show "m_start m \<le> length u"
    proof (rule ccontr)
      assume "\<not> m_start m \<le> length u"
      with j(2) have "length u < j" by simp
      with j(6) have "match_nodes ic p (drop (length u) t) = None" by blast
      moreover from e have "drop (length u) t = v' @ w" by simp
      ultimately show False using acc by (simp add: match_nodes_complete)
    qed
  qed
  from a b c show ?thesis by blast
qed


section \<open>Properties of the extraction loop\<close>

lemma fields_loop_total:
  "\<forall>(k, p)\<in>set rs. 1 \<le> ngroups p \<Longrightarrow> \<exists>flds. fields_loop ic post rs t acc = Inr flds"
proof (induction rs arbitrary: acc)
  case Nil
  then show ?case by simp
next
  case (Cons a rs)
  obtain k p where a: "a = (k, p)" by (cases a)
  with Cons.prems have g: "1 \<le> ngroups p" and rest: "\<forall>(k, p)\<in>set rs. 1 \<le> ngroups p" by auto
  show ?case
  proof (cases "re_search p t ic")
    case None
    with a Cons.IH[OF rest] show ?thesis by simp
  next
    case (Some m)
    from group1_ok[OF Some g] Some a Cons.IH[OF rest] show ?thesis by simp
  qed
qed

lemma fields_loop_error:
  "fields_loop ic post rs t acc = Inl e \<longleftrightarrow>
   e = IndexError \<and> (\<exists>(k, p)\<in>set rs. ngroups p = 0 \<and> re_search p t ic \<noteq> None)"
proof (induction rs arbitrary: acc)
  case Nil
  then show ?case by simp
next
  case (Cons a rs)
  obtain k p where a: "a = (k, p)" by (cases a)
  show ?case
  proof (cases "re_search p t ic")
    case None
    with a Cons.IH show ?thesis by auto
  next
    case (Some m)
    show ?thesis
    proof (cases "ngroups p = 0")
      case True
      from group1_fail[OF Some True] Some a True show ?thesis by auto
    next
      case False
      then have "1 \<le> ngroups p" by simp
      from group1_ok[OF Some this] Some a False Cons.IH show ?thesis by auto
    qed
  qed
qed

lemma fields_loop_lookup:
  "fields_loop ic post rs t acc = Inr flds \<Longrightarrow> distinct (map fst rs) \<Longrightarrow>
   map_of flds k =
     (case map_of rs k of
        None \<Rightarrow> map_of acc k
      | Some p \<Rightarrow>
          (case re_search p t ic of
             None \<Rightarrow> map_of acc k
           | Some m \<Rightarrow> Some (post (m_groups m ! 0))))"
proof (induction rs arbitrary: acc)
  case Nil
  then show ?case by simp
next
  case (Cons a rs)
  obtain k' p' where a: "a = (k', p')" by (cases a)
  from Cons.prems a have d: "distinct (map fst rs)" and nk: "k' \<notin> fst ` set rs" by auto
  then have nk': "map_of rs k' = None" by (simp add: map_of_eq_None_iff)
  show ?case
  proof (cases "re_search p' t ic")
    case None
    with Cons.prems a have "fields_loop ic post rs t acc = Inr flds" by simp
    from Cons.IH[OF this d] None a nk' show ?thesis by auto
  next
    case (Some m)
    show ?thesis
    proof (cases "match_group m 1")
      case (Inl e)
      with Some Cons.prems a show ?thesis by simp
    next
      case (Inr g)
      from re_search_groups[OF Some] Inr have g: "g = m_groups m ! 0"
        by (auto simp: match_group_def split: if_splits)
      from Inr Some Cons.prems a
      have "fields_loop ic post rs t (AList.update k' (post g) acc) = Inr flds" by simp
      from Cons.IH[OF this d] Some a nk' g show ?thesis
        by (auto simp: update_conv' split: option.splits)
    qed
  qed
qed

lemma fields_loop_keys:
  "fields_loop ic post rs t acc = Inr flds \<Longrightarrow>
   fst ` set flds = fst ` set acc \<union> {k. \<exists>p. (k, p) \<in> set rs \<and> re_search p t ic \<noteq> None}"
proof (induction rs arbitrary: acc)
  case Nil
  then show ?case by simp
next
  case (Cons a rs)
  obtain k' p' where a: "a = (k', p')" by (cases a)
  show ?case
  proof (cases "re_search p' t ic")
    case None
    with Cons.prems a have "fields_loop ic post rs t acc = Inr flds" by simp
    from Cons.IH[OF this] None a show ?thesis by auto
  next
    case (Some m)
    show ?thesis
    proof (cases "match_group m 1")
      case (Inl e)
      with Some Cons.prems a show ?thesis by simp
    next
      case (Inr g)
      from Inr Some Cons.prems a
      have "fields_loop ic post rs t (AList.update k' (post g) acc) = Inr flds" by simp
      from Cons.IH[OF this] Some a show ?thesis
        by (auto simp: dom_update)
    qed
  qed
qed

lemma fields_loop_empty:
  "fields_loop ic post rs t [] = Inr flds \<Longrightarrow>
   flds = [] \<longleftrightarrow> (\<forall>(k, p)\<in>set rs. re_search p t ic = None)"
proof -
  assume a: "fields_loop ic post rs t [] = Inr flds"
  have "flds = [] \<longleftrightarrow> fst ` set flds = {}" by simp
  also have "\<dots> \<longleftrightarrow> (\<forall>(k, p)\<in>set rs. re_search p t ic = None)"
    unfolding fields_loop_keys[OF a] by auto
  finally show ?thesis .
qed

section \<open>Properties of the cleaning\<close>

lemma isspace_blank: "isspace CHR '' ''"
  by (simp add: isspace_def ord_def)

lemma re_sub_spaces_hd:
  "s \<noteq> [] \<Longrightarrow> \<not> isspace (hd s) \<Longrightarrow> re_sub_spaces s \<noteq> [] \<and> hd (re_sub_spaces s) = hd s"
  by (cases s) auto

lemma single_spaced_Cons:
  "single_spaced (a # s) \<longleftrightarrow>
   (isspace a \<longrightarrow> a = CHR '' '' \<and> (s \<noteq> [] \<longrightarrow> \<not> isspace (hd s))) \<and> single_spaced s"
  by (cases s) auto

lemma single_spaced_re_sub: "single_spaced (re_sub_spaces s)"
proof (induction s rule: re_sub_spaces.induct)
  case 1
  then show ?case by simp
next
  case (2 c cs)
  show ?case
  proof (cases "isspace c")
    case True
    let ?d = "dropWhile isspace cs"
    have "re_sub_spaces ?d \<noteq> [] \<longrightarrow> \<not> isspace (hd (re_sub_spaces ?d))"
    proof (cases "?d = []")
      case e: True
      show ?thesis unfolding e by simp
    next
      case ne: False
      then have "\<not> isspace (hd ?d)" by (rule hd_dropWhile)
      with re_sub_spaces_hd[OF ne] show ?thesis by metis
    qed
    with True 2 show ?thesis by (simp add: single_spaced_Cons)
  next
    case False
    with 2 show ?thesis by (simp add: single_spaced_Cons)
  qed
qed

lemma single_spaced_append:
  "single_spaced (u @ w) \<Longrightarrow> single_spaced u \<and> single_spaced w"
proof (induction u)
  case Nil
  then show ?case by simp
next
  case (Cons a u)
  then show ?case by (cases u; cases w) (auto simp: single_spaced_Cons)
qed

lemma strip_prefix_suffix:
  "\<exists>u w. s = u @ strip s @ w"
proof -
  let ?t = "dropWhile isspace s"
  have "s = takeWhile isspace s @ ?t" by simp
  moreover have "?t = strip s @ rev (takeWhile isspace (rev ?t))"
    unfolding strip_def by (metis rev_append rev_rev_ident takeWhile_dropWhile_id)
  ultimately have "s = takeWhile isspace s @ strip s @ rev (takeWhile isspace (rev ?t))" by simp
  then show ?thesis by blast
qed

lemma single_spaced_strip: "single_spaced s \<Longrightarrow> single_spaced (strip s)"
proof -
  assume a: "single_spaced s"
  obtain u w where "s = u @ strip s @ w" using strip_prefix_suffix by blast
  with a have "single_spaced (u @ strip s @ w)" by simp
  then show ?thesis by (blast dest: single_spaced_append)
qed

lemma trimmed_strip: "trimmed (strip s)"
proof -
  let ?t = "dropWhile isspace s"
  let ?r = "dropWhile isspace (rev ?t)"
  show ?thesis
  proof (cases "?r = []")
    case True
    then show ?thesis by (simp add: trimmed_def strip_def)
  next
    case False
    then have h: "\<not> isspace (hd ?r)" by (rule hd_dropWhile)
    from False have l: "last (strip s) = hd ?r" unfolding strip_def by (simp only: last_rev)
    have tne: "?t \<noteq> []"
    proof
      assume e: "?t = []"
      have "?r = []" unfolding e by simp
      with False show False by blast
    qed
    then have ht: "\<not> isspace (hd ?t)" by (rule hd_dropWhile)
    have "?t = rev ?r @ rev (takeWhile isspace (rev ?t))"
      by (metis rev_append rev_rev_ident takeWhile_dropWhile_id)
    with False have "hd ?t = hd (rev ?r)" by (metis hd_append2 rev_is_Nil_conv)
    with ht have "\<not> isspace (hd (strip s))" unfolding strip_def by simp
    moreover from False have "strip s \<noteq> []" unfolding strip_def by (simp only: rev_is_Nil_conv not_False_eq_True)
    ultimately show ?thesis using h l unfolding trimmed_def by simp
  qed
qed

lemma filter_dropWhile_not: "filter (\<lambda>c. \<not> P c) (dropWhile P s) = filter (\<lambda>c. \<not> P c) s"
  by (induction s) auto

lemma filter_re_sub:
  "filter (\<lambda>c. \<not> isspace c) (re_sub_spaces s) = filter (\<lambda>c. \<not> isspace c) s"
  by (induction s rule: re_sub_spaces.induct) (auto simp: isspace_blank filter_dropWhile_not)

lemma filter_strip: "filter (\<lambda>c. \<not> isspace c) (strip s) = filter (\<lambda>c. \<not> isspace c) s"
proof -
  have "filter (\<lambda>c. \<not> isspace c) (strip s) =
        rev (filter (\<lambda>c. \<not> isspace c) (dropWhile isspace (rev (dropWhile isspace s))))"
    by (simp add: strip_def rev_filter)
  also have "\<dots> = rev (filter (\<lambda>c. \<not> isspace c) (rev (dropWhile isspace s)))"
    by (simp only: filter_dropWhile_not)
  also have "\<dots> = filter (\<lambda>c. \<not> isspace c) (dropWhile isspace s)"
    by (simp add: rev_filter)
  also have "\<dots> = filter (\<lambda>c. \<not> isspace c) s" by (rule filter_dropWhile_not)
  finally show ?thesis .
qed

lemma clean_text_props:
  "single_spaced (clean_text g) \<and> trimmed (clean_text g) \<and>
   filter (\<lambda>c. \<not> isspace c) (clean_text g) = filter (\<lambda>c. \<not> isspace c) g"
  by (simp add: clean_text_def single_spaced_strip single_spaced_re_sub trimmed_strip
      filter_strip filter_re_sub)

section \<open>Properties of the handler\<close>

lemma check_files_None:
  "check_files v files = None \<longleftrightarrow>
   (\<forall>f\<in>set files. is_image_file v (filename f) \<and> content_length f \<le> MAX_CONTENT_LENGTH)"
  by (induction files) (auto simp: not_less)

lemma save_files_length:
  "save_files L w files = (ns, w') \<Longrightarrow> length ns = length files"
proof (induction files arbitrary: w ns w')
  case Nil
  then show ?case by simp
next
  case (Cons f files)
  then show ?case by (auto simp: Let_def split: prod.splits)
qed

lemma get_all_Inr: "get_all rs = Inr ys \<longleftrightarrow> rs = map Inr ys"
proof (induction rs arbitrary: ys)
  case Nil
  then show ?case by auto
next
  case (Cons r rs)
  show ?case
  proof (cases r)
    case (Inl e)
    then show ?thesis by (cases ys) auto
  next
    case (Inr x)
    have "get_all (r # rs) = Inr ys \<longleftrightarrow> (\<exists>xs. get_all rs = Inr xs \<and> ys = x # xs)"
      using Inr by (auto split: sum.splits)
    also have "\<dots> \<longleftrightarrow> (\<exists>xs. rs = map Inr xs \<and> ys = x # xs)"
      using Cons.IH by simp
    also have "\<dots> \<longleftrightarrow> r # rs = map Inr ys"
      using Inr by (cases ys) auto
    finally show ?thesis .
  qed
qed

lemma get_all_Inl: "get_all rs = Inl e \<Longrightarrow> Inl e \<in> set rs"
proof (induction rs)
  case Nil
  then show ?case by simp
next
  case (Cons r rs)
  then show ?case by (cases r) (auto split: sum.splits)
qed

lemma aggregate_step:
  "foldl (\<lambda>response i. AList.update (ks ! i) (snd (vs ! i)) response) [] [0 ..< Suc n] =
   AList.update (ks ! n) (snd (vs ! n))
     (foldl (\<lambda>response i. AList.update (ks ! i) (snd (vs ! i)) response) [] [0 ..< n])"
  by simp

lemma update_fresh: "k \<notin> fst ` set al \<Longrightarrow> AList.update k v al = al @ [(k, v)]"
  by (induction al) auto

lemma aggregate_prefix_distinct:
  "distinct ks \<Longrightarrow> length vs = length ks \<Longrightarrow> n \<le> length ks \<Longrightarrow>
   foldl (\<lambda>response i. AList.update (ks ! i) (snd (vs ! i)) response) [] [0 ..< n] =
   zip (take n ks) (map snd (take n vs))"
proof (induction n)
  case 0
  then show ?case by simp
next
  case (Suc n)
  then have n: "n < length ks" "n < length vs" by simp_all
  have fresh: "ks ! n \<notin> fst ` set (zip (take n ks) (map snd (take n vs)))"
  proof
    assume "ks ! n \<in> fst ` set (zip (take n ks) (map snd (take n vs)))"
    then have "ks ! n \<in> set (take n ks)" by (auto dest: set_zip_leftD)
    then obtain j where "j < n" "ks ! j = ks ! n" using n
      by (auto simp: in_set_conv_nth)
    with Suc.prems(1) n show False by (simp add: nth_eq_iff_index_eq)
  qed
  from Suc have IH: "foldl (\<lambda>response i. AList.update (ks ! i) (snd (vs ! i)) response) [] [0 ..< n] =
    zip (take n ks) (map snd (take n vs))" by simp
  show ?case
    unfolding aggregate_step IH update_fresh[OF fresh]
    using n by (simp add: take_Suc_conv_app_nth)
qed

lemma aggregate_distinct:
  "distinct ks \<Longrightarrow> length vs = length ks \<Longrightarrow> aggregate ks vs = zip ks (map snd vs)"
  using aggregate_prefix_distinct[of ks vs "length ks"] by (simp add: aggregate_def)

lemma aggregate_prefix_lookup:
  "length vs = length ks \<Longrightarrow> \<forall>j<length ks. snd (vs ! j) = g (ks ! j) \<Longrightarrow> n \<le> length ks \<Longrightarrow>
   map_of (foldl (\<lambda>response i. AList.update (ks ! i) (snd (vs ! i)) response) [] [0 ..< n]) k =
   (if k \<in> set (take n ks) then Some (g k) else None)"
proof (induction n)
  case 0
  then show ?case by simp
next
  case (Suc n)
  then have n: "n < length ks" by simp
  from Suc have IH: "map_of (foldl (\<lambda>response i. AList.update (ks ! i) (snd (vs ! i)) response) [] [0 ..< n]) k =
   (if k \<in> set (take n ks) then Some (g k) else None)" by simp
  from Suc.prems(2) n have v: "snd (vs ! n) = g (ks ! n)" by simp
  show ?case
    unfolding aggregate_step update_conv' using IH v n
    by (auto simp: take_Suc_conv_app_nth)
qed

lemma aggregate_lookup:
  "length vs = length ks \<Longrightarrow> \<forall>j<length ks. snd (vs ! j) = g (ks ! j) \<Longrightarrow>
   map_of (aggregate ks vs) k = (if k \<in> set ks then Some (g k) else None)"
  using aggregate_prefix_lookup[of vs ks g "length ks" k] by (simp add: aggregate_def)

lemma upload_valid:
  "files \<noteq> [] \<Longrightarrow> length files \<le> MAX_FILES \<Longrightarrow> check_files v files = None \<Longrightarrow>
   save_files L (w\<lparr>folder_exists := True\<rparr>) files = (ns, w2) \<Longrightarrow>
   upload v L rs w files = run_pool v L rs w2 ns"
proof -
  assume a: "files \<noteq> []" "length files \<le> MAX_FILES" "check_files v files = None"
    "save_files L (w\<lparr>folder_exists := True\<rparr>) files = (ns, w2)"
  have "(if folder_exists w then w else w\<lparr>folder_exists := True\<rparr>) = w\<lparr>folder_exists := True\<rparr>"
    by (cases "folder_exists w") simp_all
  then have "upload v L rs w files =
    (case save_files L (w\<lparr>folder_exists := True\<rparr>) files of (filenames, w2) \<Rightarrow> run_pool v L rs w2 filenames)"
    using a(1,2,3) unfolding upload_def Let_def by (simp only: if_False not_less[symmetric] simp_thms option.case)
  with a(4) show ?thesis by simp
qed

lemma upload_invalid:
  "\<exists>f\<in>set files. \<not> is_image_file v (filename f) \<or> MAX_CONTENT_LENGTH < content_length f \<Longrightarrow>
   \<exists>msg. upload v L rs w files = (Inr (ErrorJson msg), w)"
proof -
  assume a: "\<exists>f\<in>set files. \<not> is_image_file v (filename f) \<or> MAX_CONTENT_LENGTH < content_length f"
  then have "check_files v files \<noteq> None" by (auto simp: check_files_None not_le)
  then obtain msg where "check_files v files = Some msg" by auto
  then show ?thesis by (simp add: upload_def)
qed

lemmas string_defs = isspace_def isdigit_def ord_def lower_cp_def is_upper_cp_def in_range_def
  lower_char_def lower_def char_of_def bit_0 strip_def rsplit_last_def basename_def path_join_def Let_def

lemmas regex_defs = re_search_def lit_def spaces0_def digits1_def letters_def match_group_def
  run_length_def ngroups_def

lemmas image_defs = normalize_def imread_def demo_libs_def demo_decode_def luma_def

lemmas handler_defs = upload_def run_pool_def process_file_def recognize_def extract_fields_def
  outcome_def aggregate_def is_image_file_def extensions_def generate_unique_filename_def
  UPLOAD_FOLDER_def MAX_FILES_def MAX_CONTENT_LENGTH_def clean_text_def
  empty_world_def good_file_def corrupt_file_def

lemma process_file_name:
  "process_file v L rs d path = Inr r \<Longrightarrow> fst r = basename path"
  by (auto simp: process_file_def split: sum.splits)

lemma run_pool_ok:
  assumes "ns \<noteq> []"
    and "\<forall>n\<in>set ns. \<exists>r. process_file v L rs (disk w) (path_join UPLOAD_FOLDER n) = Inr r"
  shows "run_pool v L rs w ns =
    (Inr (FieldsJson (aggregate ns
        (map (\<lambda>n. projr (process_file v L rs (disk w) (path_join UPLOAD_FOLDER n))) ns))),
     w\<lparr>submitted := submitted w @ map (path_join UPLOAD_FOLDER) ns\<rparr>)"
proof -
  let ?f = "\<lambda>n. process_file v L rs (disk w) (path_join UPLOAD_FOLDER n)"
  have "map (process_file v L rs (disk w)) (map (path_join UPLOAD_FOLDER) ns) = map Inr (map (\<lambda>n. projr (?f n)) ns)"
    using assms(2) by auto
  then have "get_all (map (process_file v L rs (disk w)) (map (path_join UPLOAD_FOLDER) ns)) =
    Inr (map (\<lambda>n. projr (?f n)) ns)"
    by (simp only: get_all_Inr)
  with assms(1) show ?thesis by (simp add: run_pool_def Let_def)
qed

lemma run_pool_fields:
  assumes "run_pool v L rs w ns = (Inr (FieldsJson resp), w')"
  shows "ns \<noteq> [] \<and> (\<forall>n\<in>set ns. \<exists>r. process_file v L rs (disk w) (path_join UPLOAD_FOLDER n) = Inr r)"
proof -
  from assms have ne: "ns \<noteq> []" by (auto simp: run_pool_def split: if_splits)
  with assms obtain fl where
    "get_all (map (process_file v L rs (disk w)) (map (path_join UPLOAD_FOLDER) ns)) = Inr fl"
    by (auto simp: run_pool_def Let_def split: sum.splits)
  then have "map (process_file v L rs (disk w)) (map (path_join UPLOAD_FOLDER) ns) = map Inr fl"
    by (simp only: get_all_Inr)
  then have eq: "map (\<lambda>n. process_file v L rs (disk w) (path_join UPLOAD_FOLDER n)) ns = map Inr fl"
    by (simp add: comp_def)
  have "\<forall>n\<in>set ns. \<exists>r. process_file v L rs (disk w) (path_join UPLOAD_FOLDER n) = Inr r"
  proof
    fix n assume "n \<in> set ns"
    then have "process_file v L rs (disk w) (path_join UPLOAD_FOLDER n) \<in>
      set (map (\<lambda>n. process_file v L rs (disk w) (path_join UPLOAD_FOLDER n)) ns)" by simp
    with eq have "process_file v L rs (disk w) (path_join UPLOAD_FOLDER n) \<in> set (map Inr fl)"
      by simp
    then show "\<exists>r. process_file v L rs (disk w) (path_join UPLOAD_FOLDER n) = Inr r" by auto
  qed
  with ne show ?thesis by simp
qed

lemma upload_fields:
  assumes "upload v L rs w files = (Inr (FieldsJson resp), w')"
  shows "files \<noteq> [] \<and> length files \<le> MAX_FILES \<and> check_files v files = None"
  using assms by (auto simp: upload_def split: if_splits option.splits)

lemma patterns_groups: "\<forall>(key, pattern)\<in>set patterns. ngroups pattern = 1"
  by (simp add: patterns_def regex_defs)

lemma patterns_distinct: "distinct (map fst patterns)"
  by (simp add: patterns_def)

lemma save_files_names:
  "save_files L w files = (ns, w') \<Longrightarrow>
   \<forall>n\<in>set ns. \<exists>k f. f \<in> set files \<and> n = generate_unique_filename (uuid4 L k) (filename f)"
proof (induction files arbitrary: w ns w')
  case Nil
  then show ?case by simp
next
  case (Cons f files)
  let ?n = "generate_unique_filename (uuid4 L (uuid_calls w)) (filename f)"
  let ?w = "w\<lparr>disk := AList.update (path_join UPLOAD_FOLDER ?n) (content f) (disk w),
                 uuid_calls := Suc (uuid_calls w)\<rparr>"
  obtain ns' w'' where r: "save_files L ?w files = (ns', w'')" by (cases "save_files L ?w files")
  with Cons.prems have ns: "ns = ?n # ns'" by (simp add: Let_def)
  from Cons.IH[OF r] have "\<forall>n\<in>set ns'. \<exists>k f'. f' \<in> set (f # files) \<and>
      n = generate_unique_filename (uuid4 L k) (filename f')" by (metis list.set_intros(2))
  moreover have "\<exists>k f'. f' \<in> set (f # files) \<and> ?n = generate_unique_filename (uuid4 L k) (filename f')"
    by (metis list.set_intros(1))
  ultimately show ?case using ns by simp
qed

lemma generated_no_slash:
  "is_image_file v fname \<Longrightarrow> CHR ''/'' \<notin> set u \<Longrightarrow>
   CHR ''/'' \<notin> set (generate_unique_filename u fname)"
  by (cases v) (auto simp: is_image_file_def generate_unique_filename_def extensions_def Let_def)

lemma basename_join:
  "CHR ''/'' \<notin> set n \<Longrightarrow> basename (path_join UPLOAD_FOLDER n) = n"
proof -
  assume a: "CHR ''/'' \<notin> set n"
  then have "\<not> (n \<noteq> [] \<and> hd n = CHR ''/'')" by (cases n) auto
  then have p: "path_join UPLOAD_FOLDER n = ''input/'' @ n"
    by (simp add: path_join_def UPLOAD_FOLDER_def)
  from a have "takeWhile (\<lambda>c. c \<noteq> CHR ''/'') (rev n @ ''/tupni'') = rev n"
    by (simp add: takeWhile_append)
  then show ?thesis unfolding p basename_def by simp
qed

lemma path_join_upload:
  "path_join UPLOAD_FOLDER x = (if x \<noteq> [] \<and> hd x = CHR ''/'' then x else ''input/'' @ x)"
  by (simp add: path_join_def UPLOAD_FOLDER_def)

lemma path_join_inj: "path_join UPLOAD_FOLDER a = path_join UPLOAD_FOLDER b \<Longrightarrow> a = b"
proof -
  assume "path_join UPLOAD_FOLDER a = path_join UPLOAD_FOLDER b"
  then have e: "(if a \<noteq> [] \<and> hd a = CHR ''/'' then a else ''input/'' @ a) =
      (if b \<noteq> [] \<and> hd b = CHR ''/'' then b else ''input/'' @ b)"
    by (simp only: path_join_upload)
  show ?thesis
  proof (cases "a \<noteq> [] \<and> hd a = CHR ''/''")
    case True
    show ?thesis
    proof (cases "b \<noteq> [] \<and> hd b = CHR ''/''")
      case b: True
      with True e show ?thesis by simp
    next
      case b: False
      with True e have "hd a = CHR ''i''" by auto
      with True show ?thesis by simp
    qed
  next
    case False
    show ?thesis
    proof (cases "b \<noteq> [] \<and> hd b = CHR ''/''")
      case b: True
      with False e have "hd b = CHR ''i''" by auto
      with b show ?thesis by simp
    next
      case b: False
      with False e show ?thesis by auto
    qed
  qed
qed

lemma save_files_frame:
  "save_files L w files = (ns, w2) \<Longrightarrow> p \<notin> path_join UPLOAD_FOLDER ` set ns \<Longrightarrow>
   map_of (disk w2) p = map_of (disk w) p"
proof (induction files arbitrary: w ns w2)
  case Nil
  then show ?case by simp
next
  case (Cons f files)
  let ?n = "generate_unique_filename (uuid4 L (uuid_calls w)) (filename f)"
  let ?w = "w\<lparr>disk := AList.update (path_join UPLOAD_FOLDER ?n) (content f) (disk w),
                 uuid_calls := Suc (uuid_calls w)\<rparr>"
  obtain ns' w'' where r: "save_files L ?w files = (ns', w'')" by (cases "save_files L ?w files")
  with Cons.prems(1) have ns: "ns = ?n # ns'" "w2 = w''" by (simp_all add: Let_def)
  with Cons.prems(2) have p: "p \<noteq> path_join UPLOAD_FOLDER ?n" "p \<notin> path_join UPLOAD_FOLDER ` set ns'"
    by auto
  from Cons.IH[OF r p(2)] have "map_of (disk w'') p = map_of (disk ?w) p" .
  with p(1) ns(2) show ?case by (simp add: update_conv')
qed

lemma save_files_content:
  "save_files L w files = (ns, w2) \<Longrightarrow> distinct ns \<Longrightarrow> i < length ns \<Longrightarrow>
   map_of (disk w2) (path_join UPLOAD_FOLDER (ns ! i)) = Some (content (files ! i))"
proof (induction files arbitrary: w ns w2 i)
  case Nil
  then show ?case by simp
next
  case (Cons f files)
  let ?n = "generate_unique_filename (uuid4 L (uuid_calls w)) (filename f)"
  let ?w = "w\<lparr>disk := AList.update (path_join UPLOAD_FOLDER ?n) (content f) (disk w),
                 uuid_calls := Suc (uuid_calls w)\<rparr>"
  obtain ns' w'' where r: "save_files L ?w files = (ns', w'')" by (cases "save_files L ?w files")
  with Cons.prems(1) have ns: "ns = ?n # ns'" "w2 = w''" by (simp_all add: Let_def)
  with Cons.prems(2) have d: "?n \<notin> set ns'" "distinct ns'" by simp_all
  show ?case
  proof (cases i)
    case 0
    have "path_join UPLOAD_FOLDER ?n \<notin> path_join UPLOAD_FOLDER ` set ns'"
      using d(1) by (auto dest: path_join_inj)
    from save_files_frame[OF r this] ns 0 show ?thesis by (simp add: update_conv')
  next
    case (Suc i')
    with Cons.prems(3) ns have "i' < length ns'" by simp
    from Cons.IH[OF r d(2) this] ns Suc show ?thesis by simp
  qed
qed

section \<open>The two variants\<close>

text \<open>\<open>process_file\<close> of each variant, statement by statement as in the source.\<close>

lemma process_file_Code2:
  "process_file Code2 L rs d path =
     (case cvtColor_BGR2GRAY L (imread L d path) of
        Inl e \<Rightarrow> Inl e
      | Inr gray \<Rightarrow>
          (case image_to_string L (snd (threshold gray 150 255 THRESH_BINARY_INV)) of
             Inl e \<Rightarrow> Inl e
           | Inr invoice_text \<Rightarrow>
               (case fields_loop True clean_text rs invoice_text [] of
                  Inl e \<Rightarrow> Inl e
                | Inr flds \<Rightarrow>
                    if flds = [] then Inr (basename path, Str ''Not an Invoice Image'')
                    else Inr (basename path, Dict flds))))"
  by (simp add: process_file_def recognize_def normalize_def extract_fields_def outcome_def
      split: sum.splits)

lemma process_file_Code1:
  "process_file Code1 L rs d path =
     (case imread L d path of
        None \<Rightarrow> Inl TypeError
      | Some im \<Rightarrow>
          (case image_to_string L im of
             Inl e \<Rightarrow> Inl e
           | Inr invoice_text \<Rightarrow>
               (case fields_loop False strip rs invoice_text [] of
                  Inl e \<Rightarrow> Inl e
                | Inr flds \<Rightarrow>
                    if flds = [] then Inr (basename path, Str ''Not an Invoice Image'')
                    else Inr (basename path, Dict flds))))"
  by (simp add: process_file_def recognize_def extract_fields_def outcome_def
      split: sum.splits option.splits)

text \<open>Where \<open>Code1.py\<close> differs from \<open>Code2.py\<close>: the search regards case, the captured
  text is stripped and not cleaned, and the image is not preprocessed.\<close>

lemma Code1_extraction_differs:
  "extract_fields Code1 patterns ''pr number 42'' = Inr [] \<and>
   extract_fields Code2 patterns ''pr number 42'' = Inr [(''PR Number'', ''42'')] \<and>
   extract_fields Code1 patterns ''Vendor Payment Terms net  cash '' =
     Inr [(''Vendor Payment Terms'', ''net  cash'')] \<and>
   extract_fields Code2 patterns ''Vendor Payment Terms net  cash '' =
     Inr [(''Vendor Payment Terms'', ''net cash'')]"
  by (simp add: extract_fields_def patterns_def regex_defs string_defs clean_text_def)

lemma Code1_no_preprocessing:
  "recognize Code1 L (Some im) = image_to_string L im \<and>
   recognize Code1 L None = Inl TypeError \<and>
   recognize Code2 L None = Inl cv2_error"
  by (simp add: recognize_def normalize_def)

section \<open>The claims\<close>

text \<open>
  Claim C1 asks that a document that does not decode leaves the batch call successful,
  with a failure entry for that document and the normal entry for the others.  The
  handler has no such entry and catches nothing: on a batch of an undecodable file and a
  valid one the exception of the worker (\<open>cv2.error\<close> in \<open>Code2.py\<close>, \<open>TypeError\<close> in
  \<open>Code1.py\<close>) is the result of the whole call, while the valid file alone is answered
  with its fields.
\<close>

theorem C1_failure_aborts_batch:
  "fst (upload Code2 demo_libs patterns empty_world [corrupt_file, good_file]) = Inl cv2_error \<and>
   fst (upload Code2 demo_libs patterns empty_world [good_file]) =
     Inr (FieldsJson [(''a.png'', Dict [(''PR Number'', ''42'')])]) \<and>
   fst (upload Code1 demo_libs patterns empty_world [corrupt_file, good_file]) = Inl TypeError"
  by (simp add: string_defs regex_defs image_defs handler_defs patterns_def)

text \<open>
  Claim C2.  For a rule table with distinct names whose patterns have a capture group,
  the extractor of \<open>Code2.py\<close> returns a dictionary, and for every rule of the table:
  if the search, which ignores case, finds nothing, the pattern matches no part of the
  text and the dictionary has no entry under the name of the rule; if it finds a match,
  the matched text is a part of the text that the pattern matches with the groups of the
  match, no part that the pattern matches starts further left, and the entry under the
  name of the rule is the first group cleaned, which is single-spaced and trimmed and has
  the characters of the group that are not whitespace.
\<close>

theorem C2_field_extractor:
  assumes "distinct (map fst rs)"
    and "\<forall>(k, p)\<in>set rs. 1 \<le> ngroups p"
    and "(key, pattern) \<in> set rs"
  shows "\<exists>flds. extract_fields Code2 rs text = Inr flds \<and>
     (case re_search pattern text True of
        None \<Rightarrow>
          (\<forall>u v w gs. text = u @ v @ w \<longrightarrow> \<not> accepts True pattern v gs) \<and>
          map_of flds key = None
      | Some m \<Rightarrow>
          (\<exists>u w. text = u @ m_text m @ w \<and> length u = m_start m) \<and>
          accepts True pattern (m_text m) (m_groups m) \<and>
          (\<forall>u v w gs. text = u @ v @ w \<longrightarrow> accepts True pattern v gs \<longrightarrow> m_start m \<le> length u) \<and>
          match_group m 1 = Inr (m_groups m ! 0) \<and>
          map_of flds key = Some (clean_text (m_groups m ! 0)) \<and>
          single_spaced (clean_text (m_groups m ! 0)) \<and>
          trimmed (clean_text (m_groups m ! 0)) \<and>
          filter (\<lambda>c. \<not> isspace c) (clean_text (m_groups m ! 0)) =
            filter (\<lambda>c. \<not> isspace c) (m_groups m ! 0))"
proof -
  from fields_loop_total[OF assms(2)] obtain flds where
    f: "fields_loop True clean_text rs text [] = Inr flds" by blast
  from assms(1,3) have mo: "map_of rs key = Some pattern" by simp
  from assms(2,3) have g: "1 \<le> ngroups pattern" by auto
  note lk = fields_loop_lookup[OF f assms(1), of key]
  have "case re_search pattern text True of
        None \<Rightarrow>
          (\<forall>u v w gs. text = u @ v @ w \<longrightarrow> \<not> accepts True pattern v gs) \<and>
          map_of flds key = None
      | Some m \<Rightarrow>
          (\<exists>u w. text = u @ m_text m @ w \<and> length u = m_start m) \<and>
          accepts True pattern (m_text m) (m_groups m) \<and>
          (\<forall>u v w gs. text = u @ v @ w \<longrightarrow> accepts True pattern v gs \<longrightarrow> m_start m \<le> length u) \<and>
          match_group m 1 = Inr (m_groups m ! 0) \<and>
          map_of flds key = Some (clean_text (m_groups m ! 0)) \<and>
          single_spaced (clean_text (m_groups m ! 0)) \<and>
          trimmed (clean_text (m_groups m ! 0)) \<and>
          filter (\<lambda>c. \<not> isspace c) (clean_text (m_groups m ! 0)) =
            filter (\<lambda>c. \<not> isspace c) (m_groups m ! 0)"
  proof (cases "re_search pattern text True")
    case None
    then have "\<forall>u v w gs. text = u @ v @ w \<longrightarrow> \<not> accepts True pattern v gs"
      by (simp only: re_search_None_iff)
    with None lk mo show ?thesis by simp
  next
    case (Some m)
    from Some lk mo have "map_of flds key = Some (clean_text (m_groups m ! 0))" by simp
    with Some re_search_Some[OF Some] group1_ok[OF Some g] clean_text_props[of "m_groups m ! 0"]
    show ?thesis by simp
  qed
  with f show ?thesis by (simp add: extract_fields_def)
qed

theorem C2_field_extractor_witness:
  "distinct (map fst patterns) \<and> list_all (\<lambda>(k, p). 1 \<le> ngroups p) patterns \<and>
   (''Vendor Name'', lit ''Vendor Name'' @ [spaces0, Group [Piece (Bracket letters) Plus]]) \<in> set patterns \<and>
   (''Cost Estimate'', lit ''Cost Estimate'' @ [spaces0, digits1]) \<in> set patterns \<and>
   re_search (lit ''Vendor Name'' @ [spaces0, Group [Piece (Bracket letters) Plus]])
     ''x vendor NAME  Acme 7'' True = Some (Match 2 ''vendor NAME  Acme'' [''Acme'']) \<and>
   re_search (lit ''Cost Estimate'' @ [spaces0, digits1]) ''x vendor NAME  Acme 7'' True = None \<and>
   (\<exists>flds. extract_fields Code2 patterns ''x vendor NAME  Acme 7'' = Inr flds \<and>
      map_of flds ''Vendor Name'' = Some ''Acme'' \<and> map_of flds ''Cost Estimate'' = None)"
proof -
  have h1: "distinct (map fst patterns)" by (rule patterns_distinct)
  have h2: "\<forall>(k, p)\<in>set patterns. 1 \<le> ngroups p" using patterns_groups by auto
  have h3: "(''Vendor Name'', lit ''Vendor Name'' @ [spaces0, Group [Piece (Bracket letters) Plus]]) \<in> set patterns"
    by (simp add: patterns_def)
  have h4: "(''Cost Estimate'', lit ''Cost Estimate'' @ [spaces0, digits1]) \<in> set patterns"
    by (simp add: patterns_def)
  have s1: "re_search (lit ''Vendor Name'' @ [spaces0, Group [Piece (Bracket letters) Plus]])
     ''x vendor NAME  Acme 7'' True = Some (Match 2 ''vendor NAME  Acme'' [''Acme''])"
    by (simp add: regex_defs string_defs)
  have s2: "re_search (lit ''Cost Estimate'' @ [spaces0, digits1]) ''x vendor NAME  Acme 7'' True = None"
    by (simp add: regex_defs string_defs)
  have c: "clean_text ''Acme'' = ''Acme''" by (simp add: clean_text_def string_defs)
  from C2_field_extractor [OF h1 h2 h3, of "''x vendor NAME  Acme 7''"]
       C2_field_extractor [OF h1 h2 h4, of "''x vendor NAME  Acme 7''"]
  have "\<exists>flds. extract_fields Code2 patterns ''x vendor NAME  Acme 7'' = Inr flds \<and>
      map_of flds ''Vendor Name'' = Some ''Acme'' \<and> map_of flds ''Cost Estimate'' = None"
    unfolding s1 s2 by (auto simp: c)
  moreover from h2 have "list_all (\<lambda>(k, p). 1 \<le> ngroups p) patterns"
    by (simp add: list_all_iff)
  ultimately show ?thesis using h1 h3 h4 s1 s2 by blast
qed

text \<open>
  Claim C3.  When every pattern has a capture group and recognition returns a text,
  \<open>process_file\<close> returns the base name of the path with one of two outcomes: the string
  \<open>'Not an Invoice Image'\<close> when no rule matches, and the dictionary of the fields, which
  is then not empty, when at least one rule matches.  An empty dictionary is never the
  outcome.
\<close>

theorem C3_outcome:
  assumes "\<forall>(key, pattern)\<in>set rs. 1 \<le> ngroups pattern"
    and "recognize v L (imread L d path) = Inr text"
  shows "\<exists>flds. extract_fields v rs text = Inr flds \<and>
     process_file v L rs d path = Inr (basename path, outcome flds) \<and>
     ((\<forall>(key, pattern)\<in>set rs. re_search pattern text (v = Code2) = None) \<longrightarrow>
        outcome flds = Str ''Not an Invoice Image'') \<and>
     ((\<exists>(key, pattern)\<in>set rs. re_search pattern text (v = Code2) \<noteq> None) \<longrightarrow>
        flds \<noteq> [] \<and> outcome flds = Dict flds) \<and>
     outcome flds \<noteq> Dict []"
proof -
  let ?ic = "v = Code2"
  let ?post = "if v = Code2 then clean_text else strip"
  have e: "extract_fields v rs text = fields_loop ?ic ?post rs text []"
    by (cases v) (simp_all add: extract_fields_def)
  from fields_loop_total[OF assms(1)] obtain flds where
    f: "fields_loop ?ic ?post rs text [] = Inr flds" by blast
  from fields_loop_empty[OF f]
  have em: "flds = [] \<longleftrightarrow> (\<forall>(k, p)\<in>set rs. re_search p text ?ic = None)" .
  have p: "process_file v L rs d path = Inr (basename path, outcome flds)"
    using assms(2) e f by (simp add: process_file_def)
  have "(\<forall>(key, pattern)\<in>set rs. re_search pattern text ?ic = None) \<longrightarrow>
        outcome flds = Str ''Not an Invoice Image''"
    using em by (simp add: outcome_def)
  moreover have "(\<exists>(key, pattern)\<in>set rs. re_search pattern text ?ic \<noteq> None) \<longrightarrow>
        flds \<noteq> [] \<and> outcome flds = Dict flds"
    using em by (auto simp: outcome_def)
  moreover have "outcome flds \<noteq> Dict []" by (simp add: outcome_def)
  ultimately show ?thesis using e f p by simp
qed

theorem C3_outcome_witness:
  "list_all (\<lambda>(key, pattern). 1 \<le> ngroups pattern) patterns \<and>
   recognize Code2 demo_libs (imread demo_libs [(''input/a.png'', ''d'')] ''input/a.png'') =
     Inr ''PR Number 42'' \<and>
   process_file Code2 demo_libs patterns [(''input/a.png'', ''d'')] ''input/a.png'' =
     Inr (''a.png'', Dict [(''PR Number'', ''42'')]) \<and>
   recognize Code2 demo_libs (imread demo_libs [(''input/a.png'', [CHR 0xC8])] ''input/a.png'') =
     Inr ''no relevant content'' \<and>
   process_file Code2 demo_libs patterns [(''input/a.png'', [CHR 0xC8])] ''input/a.png'' =
     Inr (''a.png'', Str ''Not an Invoice Image'')"
proof -
  have h1: "\<forall>(key, pattern)\<in>set patterns. 1 \<le> ngroups pattern"
    using patterns_groups by auto
  have h2: "recognize Code2 demo_libs (imread demo_libs [(''input/a.png'', ''d'')] ''input/a.png'') =
     Inr ''PR Number 42''"
    by (simp add: recognize_def image_defs string_defs)
  have h3: "recognize Code2 demo_libs (imread demo_libs [(''input/a.png'', [CHR 0xC8])] ''input/a.png'') =
     Inr ''no relevant content''"
    by (simp add: recognize_def image_defs string_defs)
  have e2: "extract_fields Code2 patterns ''PR Number 42'' = Inr [(''PR Number'', ''42'')]"
    by (simp add: extract_fields_def patterns_def regex_defs string_defs clean_text_def)
  have e3: "extract_fields Code2 patterns ''no relevant content'' = Inr []"
    by (simp add: extract_fields_def patterns_def regex_defs string_defs clean_text_def)
  from C3_outcome [OF h1 h2] e2
  have "process_file Code2 demo_libs patterns [(''input/a.png'', ''d'')] ''input/a.png'' =
     Inr (''a.png'', Dict [(''PR Number'', ''42'')])"
    by (auto simp: outcome_def string_defs)
  moreover from C3_outcome [OF h1 h3] e3
  have "process_file Code2 demo_libs patterns [(''input/a.png'', [CHR 0xC8])] ''input/a.png'' =
     Inr (''a.png'', Str ''Not an Invoice Image'')"
    by (auto simp: outcome_def string_defs)
  moreover from h1 have "list_all (\<lambda>(key, pattern). 1 \<le> ngroups pattern) patterns"
    by (simp add: list_all_iff)
  ultimately show ?thesis using h2 h3 by blast
qed

text \<open>
  Claim C4, as stated, fails for the empty batch: the handler answers a request without
  files with an error and not with an empty mapping, and the pool itself raises
  \<open>ValueError\<close> when there is no file.
\<close>

theorem C4_counterexample:
  "upload Code2 demo_libs patterns empty_world [] =
     (Inr (ErrorJson ''No files selected for upload''), empty_world) \<and>
   fst (upload Code2 demo_libs patterns empty_world []) \<noteq> Inr (FieldsJson []) \<and>
   fst (run_pool Code2 demo_libs patterns empty_world []) = Inl ValueError"
  by (simp add: upload_def run_pool_def)

text \<open>
  Claim C4, amended.  For a batch of at least one and at most \<open>MAX_FILES\<close> files that
  pass the checks, whose new names are pairwise distinct and whose documents are all
  processed without an exception, the handler returns a mapping with exactly one entry
  for each file, keyed by the new names in order, without duplicates.
\<close>

theorem C4_batch_completeness:
  assumes "files \<noteq> []" and "length files \<le> MAX_FILES" and "check_files v files = None"
    and "save_files L (w\<lparr>folder_exists := True\<rparr>) files = (filenames, w2)"
    and "distinct filenames"
    and "\<forall>n\<in>set filenames. \<exists>r. process_file v L rs (disk w2) (path_join UPLOAD_FOLDER n) = Inr r"
  shows "\<exists>resp. fst (upload v L rs w files) = Inr (FieldsJson resp) \<and>
     length resp = length files \<and> map fst resp = filenames \<and> distinct (map fst resp)"
proof -
  let ?fl = "map (\<lambda>n. projr (process_file v L rs (disk w2) (path_join UPLOAD_FOLDER n))) filenames"
  from save_files_length[OF assms(4)] have len: "length filenames = length files" .
  with assms(1) have ne: "filenames \<noteq> []" by auto
  from upload_valid[OF assms(1-4)] run_pool_ok[OF ne assms(6)]
  have u: "fst (upload v L rs w files) = Inr (FieldsJson (aggregate filenames ?fl))" by simp
  have a: "aggregate filenames ?fl = zip filenames (map snd ?fl)"
    by (rule aggregate_distinct[OF assms(5)]) simp
  have "length (zip filenames (map snd ?fl)) = length files" using len by simp
  moreover have "map fst (zip filenames (map snd ?fl)) = filenames" by simp
  ultimately show ?thesis using u a assms(5) by simp
qed

theorem C4_batch_completeness_witness:
  "[good_file, blank_file] \<noteq> [] \<and> length [good_file, blank_file] \<le> MAX_FILES \<and>
   check_files Code2 [good_file, blank_file] = None \<and>
   save_files demo_libs (empty_world\<lparr>folder_exists := True\<rparr>) [good_file, blank_file] =
     ([''a.png'', ''aa.jpg''], saved_world) \<and>
   distinct [''a.png'', ''aa.jpg''] \<and>
   list_all
     (\<lambda>n. \<exists>r. process_file Code2 demo_libs patterns (disk saved_world) (path_join UPLOAD_FOLDER n) = Inr r)
     [''a.png'', ''aa.jpg''] \<and>
   (\<exists>resp. fst (upload Code2 demo_libs patterns empty_world [good_file, blank_file]) =
        Inr (FieldsJson resp) \<and>
      length resp = 2 \<and> map fst resp = [''a.png'', ''aa.jpg''])"
proof -
  have h1: "[good_file, blank_file] \<noteq> []" by simp
  have h2: "length [good_file, blank_file] \<le> MAX_FILES" by (simp add: MAX_FILES_def)
  have h3: "check_files Code2 [good_file, blank_file] = None"
    by (simp add: string_defs handler_defs blank_file_def)
  have h4: "save_files demo_libs (empty_world\<lparr>folder_exists := True\<rparr>) [good_file, blank_file] =
     ([''a.png'', ''aa.jpg''], saved_world)"
    by (simp add: string_defs handler_defs demo_libs_def blank_file_def saved_world_def)
  have h5: "distinct [''a.png'', ''aa.jpg'']" by simp
  have p1: "process_file Code2 demo_libs patterns (disk saved_world) ''input/a.png'' =
      Inr (''a.png'', Dict [(''PR Number'', ''42'')])"
    by (simp add: string_defs regex_defs image_defs handler_defs patterns_def saved_world_def)
  have p2: "process_file Code2 demo_libs patterns (disk saved_world) ''input/aa.jpg'' =
      Inr (''aa.jpg'', Str ''Not an Invoice Image'')"
    by (simp add: string_defs regex_defs image_defs handler_defs patterns_def saved_world_def)
  have h6: "\<forall>n\<in>set [''a.png'', ''aa.jpg''].
      \<exists>r. process_file Code2 demo_libs patterns (disk saved_world) (path_join UPLOAD_FOLDER n) = Inr r"
    using p1 p2 by (simp add: path_join_def UPLOAD_FOLDER_def)
  from C4_batch_completeness [OF h1 h2 h3 h4 h5 h6]
  have "\<exists>resp. fst (upload Code2 demo_libs patterns empty_world [good_file, blank_file]) =
        Inr (FieldsJson resp) \<and>
      length resp = 2 \<and> map fst resp = [''a.png'', ''aa.jpg'']"
    by (auto simp: numeral_2_eq_2)
  moreover from h6 have "list_all
     (\<lambda>n. \<exists>r. process_file Code2 demo_libs patterns (disk saved_world) (path_join UPLOAD_FOLDER n) = Inr r)
     [''a.png'', ''aa.jpg'']"
    by (simp only: list_all_iff)
  ultimately show ?thesis using h1 h2 h3 h4 h5 by blast
qed

text \<open>
  Claim C5, as stated, fails.  A white pixel is normalised to 0.  The result cannot be
  normalised again as it is, because the conversion to gray rejects an image of one
  channel; read back as a gray image of three channels it is normalised to 255; and the
  threshold alone turns the 0 into 255.
\<close>

theorem C5_counterexample:
  "normalize demo_libs (Some (Color [[(200, 200, 200)]])) = Inr (Mono [[0]]) \<and>
   normalize demo_libs (Some (Mono [[0]])) \<noteq> Inr (Mono [[0]]) \<and>
   normalize demo_libs (Some (Color [[(0, 0, 0)]])) = Inr (Mono [[255]]) \<and>
   snd (threshold (Mono [[0]]) 150 255 THRESH_BINARY_INV) = Mono [[255]]"
  by (simp add: image_defs)

text \<open>
  Claim C5, amended.  Thresholding an image that is already thresholded inverts every
  pixel: the result is the complement of the first result, which is the threshold of the
  input without inversion.  A third application gives the first result again.  The
  conversion to gray raises \<open>cv2.error\<close> on the thresholded image.
\<close>

theorem C5_rethreshold_inverts:
  "snd (threshold (snd (threshold (Mono g) 150 255 THRESH_BINARY_INV)) 150 255 THRESH_BINARY_INV) =
     Mono (map (map (\<lambda>p. 255 - threshold_px 150 255 THRESH_BINARY_INV p)) g) \<and>
   snd (threshold (snd (threshold (Mono g) 150 255 THRESH_BINARY_INV)) 150 255 THRESH_BINARY_INV) =
     snd (threshold (Mono g) 150 255 THRESH_BINARY) \<and>
   snd (threshold (snd (threshold (snd (threshold (Mono g) 150 255 THRESH_BINARY_INV))
       150 255 THRESH_BINARY_INV)) 150 255 THRESH_BINARY_INV) =
     snd (threshold (Mono g) 150 255 THRESH_BINARY_INV) \<and>
   normalize L (Some (snd (threshold (Mono g) 150 255 THRESH_BINARY_INV))) = Inl cv2_error"
  by (simp add: normalize_def comp_def)

text \<open>
  Claim C6.  For every decoded image (three channels and at least one pixel, as
  \<open>cv2.imread\<close> gives it) the
  preprocessing of \<open>Code2.py\<close> succeeds and returns a one-channel image with the rows and
  columns of the input, in which a pixel is 0 where the gray value is above 150 and 255
  elsewhere, so that dark text becomes the foreground.  The result is a function of the
  image alone.
\<close>

theorem C6_preprocessor:
  assumes "concat rows \<noteq> []"
  shows "\<exists>out. normalize L (Some (Color rows)) = Inr (Mono out) \<and>
     out = map (map (\<lambda>p. if 150 < unat (bgr2gray L p) then 0 else 255)) rows \<and>
     length out = length rows \<and> map length out = map length rows \<and>
     (\<forall>row\<in>set out. \<forall>p\<in>set row. p = 0 \<or> p = 255)"
  using assms by (auto simp: normalize_def comp_def)

theorem C6_preprocessor_witness:
  "normalize demo_libs
     (Some (Color [[(10, 20, 30), (250, 240, 230)], [(151, 151, 151), (150, 150, 150)]])) =
   Inr (Mono [[255, 0], [0, 255]])"
  using C6_preprocessor
    [where L = demo_libs
       and rows = "[[(10, 20, 30), (250, 240, 230)], [(151, 151, 151), (150, 150, 150)]]"]
  by (simp add: image_defs)

text \<open>
  Claim C7.  The captured text \<open>"  Acme   Corp\n"\<close> (two spaces in front, three inside,
  a newline at the end) is stored as \<open>"Acme Corp"\<close>: \<open>clean_text\<close> gives that string,
  and the extractor of \<open>Code2.py\<close>, run with a rule whose group captures exactly that
  text, stores it under the name of the rule.
\<close>

theorem C7_whitespace_normalization:
  "clean_text ''  Acme   Corp\<newline>'' = ''Acme Corp'' \<and>
   extract_fields Code2
     [(''Vendor'', lit ''Vendor:'' @ [Group [Piece (Bracket (Whitespace # letters)) Plus]])]
     ''Vendor:  Acme   Corp\<newline>'' = Inr [(''Vendor'', ''Acme Corp'')]"
  by (simp add: string_defs regex_defs extract_fields_def clean_text_def)

text \<open>
  Claim C8, as stated, fails: no rule is ever validated.  With a pattern without a
  capture group the handler raises \<open>IndexError\<close> while it processes a document that the
  pattern matches, and answers normally for a document that it does not match; a
  pattern with two groups is accepted and its first group is stored.
\<close>

theorem C8_counterexample:
  "fst (upload Code2 demo_libs [(''PR Number'', lit ''PR Number'')] empty_world [good_file]) =
     Inl IndexError \<and>
   fst (upload Code2 demo_libs [(''PR Number'', lit ''PR Number'')] empty_world
     [\<lparr>filename = ''blank.png'', content_length = 0, content = [CHR 0xC8]\<rparr>]) =
     Inr (FieldsJson [(''a.png'', Str ''Not an Invoice Image'')]) \<and>
   fst (upload Code2 demo_libs
     [(''PR Number'', [Group (map (\<lambda>c. Piece (Single (Chr c)) Once) ''PR''), spaces0,
        Group [Piece (Bracket letters) Plus]])] empty_world [good_file]) =
     Inr (FieldsJson [(''a.png'', Dict [(''PR Number'', ''PR'')])])"
  by (simp add: string_defs regex_defs image_defs handler_defs)

text \<open>
  Claim C8, amended.  No rule is validated before the batch.  Every pattern of the table
  of \<open>Code2.py\<close> has exactly one capture group.  For a table written in the pattern syntax
  of that table (literal characters, \<open>\s\<close>, \<open>\d\<close>, bracket sets, greedy \<open>*\<close> and \<open>+\<close>,
  capture groups around runs of these; no optional group, no alternation): the
  extraction fails exactly when some pattern without a group matches the text of the
  document, and then with \<open>IndexError\<close>; when every pattern has at least one group it
  does not fail; and a rule whose pattern has several groups is accepted, the text of
  its first group being what is stored under its name.
\<close>

theorem C8_no_rule_validation:
  "(\<forall>(key, pattern)\<in>set patterns. ngroups pattern = 1) \<and>
   (extract_fields v rs text = Inl e \<longleftrightarrow>
      e = IndexError \<and>
      (\<exists>(key, pattern)\<in>set rs. ngroups pattern = 0 \<and> re_search pattern text (v = Code2) \<noteq> None)) \<and>
   ((\<forall>(key, pattern)\<in>set rs. 1 \<le> ngroups pattern) \<longrightarrow>
      (\<exists>flds. extract_fields v rs text = Inr flds)) \<and>
   (distinct (map fst rs) \<longrightarrow> extract_fields v rs text = Inr flds \<longrightarrow>
    (key, pattern) \<in> set rs \<longrightarrow> re_search pattern text (v = Code2) = Some m \<longrightarrow>
      length (m_groups m) = ngroups pattern \<and>
      map_of flds key = Some ((if v = Code2 then clean_text else strip) (m_groups m ! 0)))"
proof -
  let ?ic = "v = Code2"
  let ?post = "if v = Code2 then clean_text else strip"
  have e: "extract_fields v rs text = fields_loop ?ic ?post rs text []"
    by (cases v) (simp_all add: extract_fields_def)
  have c1: "\<forall>(key, pattern)\<in>set patterns. ngroups pattern = 1"
    by (rule patterns_groups)
  have c2: "extract_fields v rs text = Inl e \<longleftrightarrow>
      e = IndexError \<and>
      (\<exists>(key, pattern)\<in>set rs. ngroups pattern = 0 \<and> re_search pattern text ?ic \<noteq> None)"
    unfolding e by (rule fields_loop_error)
  have c3: "(\<forall>(key, pattern)\<in>set rs. 1 \<le> ngroups pattern) \<longrightarrow>
      (\<exists>flds. extract_fields v rs text = Inr flds)"
    unfolding e using fields_loop_total [of rs ?ic ?post "text" "[]"] by blast
  have c4: "distinct (map fst rs) \<longrightarrow> extract_fields v rs text = Inr flds \<longrightarrow>
    (key, pattern) \<in> set rs \<longrightarrow> re_search pattern text ?ic = Some m \<longrightarrow>
      length (m_groups m) = ngroups pattern \<and>
      map_of flds key = Some (?post (m_groups m ! 0))"
  proof (intro impI)
    assume d: "distinct (map fst rs)" and f: "extract_fields v rs text = Inr flds"
      and k: "(key, pattern) \<in> set rs" and m: "re_search pattern text ?ic = Some m"
    from f have f': "fields_loop ?ic ?post rs text [] = Inr flds" by (simp only: e)
    from d k have mo: "map_of rs key = Some pattern" by simp
    from fields_loop_lookup [OF f' d, of key] mo m
    have "map_of flds key = Some (?post (m_groups m ! 0))" by simp
    with re_search_groups [OF m]
    show "length (m_groups m) = ngroups pattern \<and>
      map_of flds key = Some (?post (m_groups m ! 0))" by simp
  qed
  from c1 c2 c3 c4 show ?thesis by blast
qed

theorem C8_no_rule_validation_witness:
  "ngroups (lit ''PR Number'') = 0 \<and>
   re_search (lit ''PR Number'') ''PR Number 42'' True \<noteq> None \<and>
   extract_fields Code2 [(''PR Number'', lit ''PR Number'')] ''PR Number 42'' = Inl IndexError \<and>
   list_all (\<lambda>(key, pattern). 1 \<le> ngroups pattern) patterns \<and>
   (\<exists>flds. extract_fields Code2 patterns ''PR Number 42'' = Inr flds) \<and>
   ngroups two_groups = 2 \<and>
   re_search two_groups ''PR Number 42'' True = Some (Match 0 ''PR Number'' [''PR'', ''Number'']) \<and>
   extract_fields Code2 [(''PR Number'', two_groups)] ''PR Number 42'' =
     Inr [(''PR Number'', ''PR'')] \<and>
   map_of [(''PR Number'', ''PR'')] ''PR Number'' = Some (clean_text ''PR'')"
proof -
  have h1: "ngroups (lit ''PR Number'') = 0" by (simp add: regex_defs)
  have h2: "re_search (lit ''PR Number'') ''PR Number 42'' True \<noteq> None"
    by (simp add: regex_defs string_defs)
  have h3: "\<forall>(key, pattern)\<in>set patterns. 1 \<le> ngroups pattern"
    using patterns_groups by auto
  have h4: "ngroups two_groups = 2" by (simp add: regex_defs two_groups_def)
  have h5: "re_search two_groups ''PR Number 42'' True =
      Some (Match 0 ''PR Number'' [''PR'', ''Number''])"
    by (simp add: regex_defs string_defs two_groups_def)
  have h6: "extract_fields Code2 [(''PR Number'', two_groups)] ''PR Number 42'' =
      Inr [(''PR Number'', ''PR'')]"
    by (simp add: extract_fields_def regex_defs string_defs two_groups_def clean_text_def)
  have h7: "distinct (map fst [(''PR Number'', two_groups)])" by simp
  have h8: "(''PR Number'', two_groups) \<in> set [(''PR Number'', two_groups)]" by simp
  from C8_no_rule_validation [of Code2 "[(''PR Number'', lit ''PR Number'')]" "''PR Number 42''" IndexError]
    h1 h2
  have "extract_fields Code2 [(''PR Number'', lit ''PR Number'')] ''PR Number 42'' = Inl IndexError"
    by simp
  moreover from C8_no_rule_validation [of Code2 patterns "''PR Number 42''"] h3
  have "\<exists>flds. extract_fields Code2 patterns ''PR Number 42'' = Inr flds" by blast
  moreover from h3 have "list_all (\<lambda>(key, pattern). 1 \<le> ngroups pattern) patterns"
    by (simp add: list_all_iff)
  moreover from C8_no_rule_validation
    [of Code2 "[(''PR Number'', two_groups)]" "''PR Number 42''" IndexError
       "[(''PR Number'', ''PR'')]" "''PR Number''" two_groups
       "Match 0 ''PR Number'' [''PR'', ''Number'']"]
    h5 h6 h7 h8
  have "map_of [(''PR Number'', ''PR'')] ''PR Number'' = Some (clean_text ''PR'')" by simp
  ultimately show ?thesis using h1 h2 h4 h5 h6 by blast
qed

text \<open>
  Claim C9.  If some submitted file fails the extension check or the size check, the
  handler returns an error response and the world is unchanged: no folder is created, no
  file is written, no identifier is drawn and no path is handed to a worker.
\<close>

theorem C9_validation_all_or_nothing:
  assumes "\<exists>f\<in>set files. \<not> is_image_file v (filename f) \<or> MAX_CONTENT_LENGTH < content_length f"
  shows "\<exists>msg. upload v L rs w files = (Inr (ErrorJson msg), w)"
  using assms by (rule upload_invalid)

theorem C9_validation_all_or_nothing_witness:
  "(\<exists>f\<in>set [good_file, \<lparr>filename = ''notes.txt'', content_length = 0, content = ''d''\<rparr>].
      \<not> is_image_file Code2 (filename f) \<or> MAX_CONTENT_LENGTH < content_length f) \<and>
   upload Code2 demo_libs patterns empty_world
     [good_file, \<lparr>filename = ''notes.txt'', content_length = 0, content = ''d''\<rparr>] =
   (Inr (ErrorJson ''notes.txt is not an image file''), empty_world)"
proof -
  have h: "\<exists>f\<in>set [good_file, \<lparr>filename = ''notes.txt'', content_length = 0, content = ''d''\<rparr>].
      \<not> is_image_file Code2 (filename f) \<or> MAX_CONTENT_LENGTH < content_length f"
    by (simp add: string_defs handler_defs)
  from C9_validation_all_or_nothing [OF h, of demo_libs patterns empty_world]
  show ?thesis using h by (simp add: string_defs handler_defs)
qed

text \<open>
  Claim C10.  When the handler returns a mapping, then for every index \<open>i\<close> the file
  saved under the \<open>i\<close>-th new name is processed without an exception, the identifier
  that \<open>process_file\<close> returns is the base name of the path it was given, and the
  mapping sends the \<open>i\<close>-th name to the outcome computed from that path.  When the
  identifier strings contain no slash, the returned identifier is the \<open>i\<close>-th name
  itself; when the new names are distinct, the image read from that path is the one
  decoded from the bytes of the \<open>i\<close>-th submitted file.
\<close>

theorem C10_identifier_consistency:
  assumes "upload v L rs w files = (Inr (FieldsJson resp), w')"
    and "save_files L (w\<lparr>folder_exists := True\<rparr>) files = (filenames, w2)"
    and "i < length filenames"
  shows "\<exists>r. process_file v L rs (disk w2) (path_join UPLOAD_FOLDER (filenames ! i)) = Inr r \<and>
     fst r = basename (path_join UPLOAD_FOLDER (filenames ! i)) \<and>
     map_of resp (filenames ! i) = Some (snd r) \<and>
     ((\<forall>k. CHR ''/'' \<notin> set (uuid4 L k)) \<longrightarrow> fst r = filenames ! i) \<and>
     (distinct filenames \<longrightarrow>
        imread L (disk w2) (path_join UPLOAD_FOLDER (filenames ! i)) =
          map_option Color (imdecode L (content (files ! i))))"
proof -
  let ?f = "\<lambda>n. process_file v L rs (disk w2) (path_join UPLOAD_FOLDER n)"
  let ?fl = "map (\<lambda>n. projr (?f n)) filenames"
  from upload_fields[OF assms(1)] have
    v: "files \<noteq> []" "length files \<le> MAX_FILES" "check_files v files = None" by simp_all
  from upload_valid[OF v assms(2)] assms(1)
  have rp: "run_pool v L rs w2 filenames = (Inr (FieldsJson resp), w')" by simp
  from run_pool_fields[OF rp] have ne: "filenames \<noteq> []"
    and ok: "\<forall>n\<in>set filenames. \<exists>r. ?f n = Inr r" by simp_all
  from run_pool_ok[OF ne ok] rp have resp: "resp = aggregate filenames ?fl" by simp
  from assms(3) have mem: "filenames ! i \<in> set filenames" by simp
  with ok obtain r where r: "?f (filenames ! i) = Inr r" by blast
  have "map_of (aggregate filenames ?fl) (filenames ! i) =
      (if filenames ! i \<in> set filenames then Some (snd (projr (?f (filenames ! i)))) else None)"
    by (rule aggregate_lookup) simp_all
  with mem r resp have look: "map_of resp (filenames ! i) = Some (snd r)" by simp
  have name: "fst r = basename (path_join UPLOAD_FOLDER (filenames ! i))"
    using r by (rule process_file_name)
  have "(\<forall>k. CHR ''/'' \<notin> set (uuid4 L k)) \<longrightarrow> fst r = filenames ! i"
  proof
    assume u: "\<forall>k. CHR ''/'' \<notin> set (uuid4 L k)"
    from save_files_names[OF assms(2)] mem obtain k f where
      f: "f \<in> set files" "filenames ! i = generate_unique_filename (uuid4 L k) (filename f)" by blast
    from v(3) f(1) have "is_image_file v (filename f)" by (simp add: check_files_None)
    from generated_no_slash[OF this] u f(2) have "CHR ''/'' \<notin> set (filenames ! i)" by simp
    from basename_join[OF this] name show "fst r = filenames ! i" by simp
  qed
  moreover have "distinct filenames \<longrightarrow>
        imread L (disk w2) (path_join UPLOAD_FOLDER (filenames ! i)) =
          map_option Color (imdecode L (content (files ! i)))"
    using save_files_content[OF assms(2) _ assms(3)] by (simp add: imread_def)
  ultimately show ?thesis using r look name by blast
qed

theorem C10_identifier_consistency_witness:
  "upload Code2 demo_libs patterns empty_world [good_file, blank_file] =
     (Inr (FieldsJson [(''a.png'', Dict [(''PR Number'', ''42'')]),
                       (''aa.jpg'', Str ''Not an Invoice Image'')]),
      saved_world\<lparr>submitted := [''input/a.png'', ''input/aa.jpg'']\<rparr>) \<and>
   save_files demo_libs (empty_world\<lparr>folder_exists := True\<rparr>) [good_file, blank_file] =
     ([''a.png'', ''aa.jpg''], saved_world) \<and>
   (1::nat) < length [''a.png'', ''aa.jpg''] \<and>
   (\<forall>k. CHR ''/'' \<notin> set (uuid4 demo_libs k)) \<and>
   distinct [''a.png'', ''aa.jpg''] \<and>
   (\<exists>r. process_file Code2 demo_libs patterns (disk saved_world) ''input/aa.jpg'' = Inr r \<and>
      fst r = ''aa.jpg'' \<and>
      map_of [(''a.png'', Dict [(''PR Number'', ''42'')]), (''aa.jpg'', Str ''Not an Invoice Image'')]
        ''aa.jpg'' = Some (snd r) \<and>
      imread demo_libs (disk saved_world) ''input/aa.jpg'' =
        map_option Color (imdecode demo_libs (content blank_file)))"
proof -
  have h1: "upload Code2 demo_libs patterns empty_world [good_file, blank_file] =
     (Inr (FieldsJson [(''a.png'', Dict [(''PR Number'', ''42'')]),
                       (''aa.jpg'', Str ''Not an Invoice Image'')]),
      saved_world\<lparr>submitted := [''input/a.png'', ''input/aa.jpg'']\<rparr>)"
    by (simp add: string_defs regex_defs image_defs handler_defs patterns_def blank_file_def
        saved_world_def)
  have h2: "save_files demo_libs (empty_world\<lparr>folder_exists := True\<rparr>) [good_file, blank_file] =
     ([''a.png'', ''aa.jpg''], saved_world)"
    by (simp add: string_defs handler_defs demo_libs_def blank_file_def saved_world_def)
  have h3: "(1::nat) < length [''a.png'', ''aa.jpg'']" by simp
  have h4: "\<forall>k. CHR ''/'' \<notin> set (uuid4 demo_libs k)" by (simp add: demo_libs_def)
  have h5: "distinct [''a.png'', ''aa.jpg'']" by simp
  from C10_identifier_consistency [OF h1 h2 h3] h4 h5
  have "\<exists>r. process_file Code2 demo_libs patterns (disk saved_world) ''input/aa.jpg'' = Inr r \<and>
      fst r = ''aa.jpg'' \<and>
      map_of [(''a.png'', Dict [(''PR Number'', ''42'')]), (''aa.jpg'', Str ''Not an Invoice Image'')]
        ''aa.jpg'' = Some (snd r) \<and>
      imread demo_libs (disk saved_world) ''input/aa.jpg'' =
        map_option Color (imdecode demo_libs (content blank_file))"
    by (simp add: path_join_def UPLOAD_FOLDER_def)
  with h1 h2 h3 h4 h5 show ?thesis by blast
qed

end
